theory Spec2Isabelle
  imports Main "HOL-Library.Sublist"
begin

section \<open>JavaScript strings\<close>

text \<open>
  A JavaScript string is a sequence of code units. The model uses \<^typ>\<open>string\<close>, so a
  character is a code unit below 256 (Latin-1); \<open>length\<close> is \<open>.length\<close>. The result
  \<open>-1\<close> of \<open>indexOf\<close> and the value \<open>undefined\<close> are \<open>None\<close>.
\<close>

definition startsWith :: "string \<Rightarrow> string \<Rightarrow> bool" where
  "startsWith s p = (take (length p) s = p)"

fun includesStr :: "string \<Rightarrow> string \<Rightarrow> bool" where
  "includesStr [] p = (p = [])"
| "includesStr (c # cs) p = (startsWith (c # cs) p \<or> includesStr cs p)"

fun indexOfChar :: "string \<Rightarrow> char \<Rightarrow> nat option" where
  "indexOfChar [] c = None"
| "indexOfChar (x # xs) c = (if x = c then Some 0 else map_option Suc (indexOfChar xs c))"

text \<open>\<open>s.indexOf(c, start)\<close> for a one-character search string.\<close>

definition indexOf :: "string \<Rightarrow> char \<Rightarrow> nat \<Rightarrow> nat option" where
  "indexOf s c start = map_option (\<lambda>i. i + start) (indexOfChar (drop start s) c)"

text \<open>\<open>s.substring(a, b)\<close>: both indices are clamped to the length and swapped when
  \<open>a > b\<close>. \<open>s.substring(a)\<close> and \<open>s.slice(a)\<close> (for \<open>a \<ge> 0\<close>) drop \<open>a\<close> code units.\<close>

definition substring :: "string \<Rightarrow> nat \<Rightarrow> nat \<Rightarrow> string" where
  "substring s a b =
     (let a' = min a (length s); b' = min b (length s)
      in take (max a' b' - min a' b') (drop (min a' b') s))"

definition substringFrom :: "string \<Rightarrow> nat \<Rightarrow> string" where
  "substringFrom s a = drop a s"

definition slice :: "string \<Rightarrow> nat \<Rightarrow> string" where
  "slice s a = drop a s"

text \<open>\<open>toLowerCase\<close> on Latin-1: \<open>A\<close>-\<open>Z\<close>, and the accented capitals
  \<open>0xC0\<close>-\<open>0xDE\<close> without the multiplication sign \<open>0xD7\<close>, move up by 32.\<close>

definition lowerChar :: "char \<Rightarrow> char" where
  "lowerChar c =
     (let n = (of_char c :: nat)
      in if (65 \<le> n \<and> n \<le> 90) \<or> (192 \<le> n \<and> n \<le> 214) \<or> (216 \<le> n \<and> n \<le> 222)
         then char_of (n + 32) else c)"

definition toLowerCase :: "string \<Rightarrow> string" where
  "toLowerCase s = map lowerChar s"

text \<open>The character class \<open>[a-zA-Z0-9]\<close>.\<close>

definition isAlnum :: "char \<Rightarrow> bool" where
  "isAlnum c =
     (let n = (of_char c :: nat)
      in (97 \<le> n \<and> n \<le> 122) \<or> (65 \<le> n \<and> n \<le> 90) \<or> (48 \<le> n \<and> n \<le> 57))"

section \<open>The tile tokenizer\<close>

datatype TileType =
  Consonant | Vowel | VowelTeam | Digraph | Welded | Suffix | RControl | Prefix
  | Syllable | Space

record TileData =
  tileText :: string
  tileType :: TileType

datatype error = TypeError

definition weldedSounds :: "string list" where
  "weldedSounds =
     [''all'', ''am'', ''an'', ''ang'', ''ing'', ''ong'', ''ung'', ''ank'', ''ink'', ''onk'',
      ''unk'', ''ild'', ''ind'', ''old'', ''ost'', ''olt'', ''ive'']"

definition vowelTeams :: "string list" where
  "vowelTeams =
     [''eigh'', ''igh'', ''ai'', ''ay'', ''ee'', ''ea'', ''ey'', ''oi'', ''oy'', ''oa'', ''oe'',
      ''ow'', ''ou'', ''oo'', ''ue'', ''ew'', ''au'', ''aw'', ''ie'', ''ei'', ''ui'']"

definition digraphs :: "string list" where
  "digraphs =
     [''sh'', ''ch'', ''th'', ''wh'', ''ck'', ''ph'', ''qu'', ''wr'', ''kn'', ''gn'', ''mb'',
      ''tch'', ''dge'']"

definition vowels :: "string list" where
  "vowels = [''a'', ''e'', ''i'', ''o'', ''u'', ''y'']"

definition rControlled :: "string list" where
  "rControlled = [''ar'', ''or'', ''er'', ''ir'', ''ur'']"

text \<open>\<open>remaining.match(/^\|([^|]*)\|/)\<close>: the whole match and its group 1.\<close>

definition syllableMatch :: "string \<Rightarrow> (string \<times> string) option" where
  "syllableMatch remaining =
     (if startsWith remaining ''|'' then
        (case indexOf remaining (CHR ''|'') 1 of
           None \<Rightarrow> None
         | Some close \<Rightarrow> Some (take (close + 1) remaining, substring remaining 1 close))
      else None)"

text \<open>\<open>remaining.match(/^-([a-zA-Z0-9]+)/)\<close>: the whole match.\<close>

definition suffixMatch :: "string \<Rightarrow> string option" where
  "suffixMatch remaining =
     (case remaining of
        [] \<Rightarrow> None
      | c # rest \<Rightarrow>
          if c = CHR ''-'' \<and> takeWhile isAlnum rest \<noteq> []
          then Some (c # takeWhile isAlnum rest) else None)"

text \<open>\<open>remaining.match(/^([a-zA-Z0-9]+)-/)\<close>: the whole match. The greedy run must be
  the longest one, since a shorter run is followed by an alphanumeric character.\<close>

definition prefixMatch :: "string \<Rightarrow> string option" where
  "prefixMatch remaining =
     (let w = takeWhile isAlnum remaining
      in if w \<noteq> [] \<and> startsWith (drop (length w) remaining) ''-''
         then Some (w @ ''-'') else None)"

text \<open>An override \<open>open ... close\<close> (rules 1.5, 4, 5 and 6 of the loop): the opener must
  start the string and the closer is searched from index \<open>start\<close>.\<close>

definition override :: "string \<Rightarrow> string \<Rightarrow> char \<Rightarrow> nat \<Rightarrow> TileType \<Rightarrow> (TileData \<times> string) option" where
  "override remaining opener closer start ty =
     (if startsWith remaining opener then
        (case indexOf remaining closer start of
           None \<Rightarrow> None
         | Some close \<Rightarrow>
             Some (\<lparr>tileText = substring remaining 1 close, tileType = ty\<rparr>,
                   substringFrom remaining (close + 1)))
      else None)"

text \<open>One table of the automatic cascade: the first entry, in the table's order, that
  the lower-cased rest starts with.\<close>

definition autoMatch :: "string \<Rightarrow> string list \<Rightarrow> TileType \<Rightarrow> (TileData \<times> string) option" where
  "autoMatch remaining table ty =
     (case find (\<lambda>p. startsWith (toLowerCase remaining) p) table of
        None \<Rightarrow> None
      | Some p \<Rightarrow>
          Some (\<lparr>tileText = substring remaining 0 (length p), tileType = ty\<rparr>,
                slice remaining (length p)))"

text \<open>The last step of the loop body: \<open>remaining[0]\<close> is \<open>undefined\<close> on the empty
  string, and \<open>undefined.toLowerCase()\<close> throws.\<close>

definition singleLetter :: "string \<Rightarrow> error + (TileData \<times> string)" where
  "singleLetter remaining =
     (case remaining of
        [] \<Rightarrow> Inl TypeError
      | char # _ \<Rightarrow>
          Inr (\<lparr>tileText = [char],
                tileType = (if toLowerCase [char] \<in> set vowels then Vowel else Consonant)\<rparr>,
               slice remaining 1))"

text \<open>The body of the \<open>while\<close> loop: the tile it pushes and the new \<open>remaining\<close>.\<close>

definition parseStep :: "string \<Rightarrow> error + (TileData \<times> string)" where
  "parseStep remaining =
     (if startsWith remaining '' '' then
        Inr (\<lparr>tileText = [], tileType = Space\<rparr>, slice remaining 1)
      else case syllableMatch remaining of
        Some (m0, m1) \<Rightarrow>
          Inr (\<lparr>tileText = m1, tileType = Syllable\<rparr>, substringFrom remaining (length m0))
      | None \<Rightarrow>
      (case override remaining ''<'' (CHR ''>'') 0 Suffix of Some r \<Rightarrow> Inr r | None \<Rightarrow>
      (case suffixMatch remaining of
        Some m0 \<Rightarrow>
          Inr (\<lparr>tileText = m0, tileType = Suffix\<rparr>, substringFrom remaining (length m0))
      | None \<Rightarrow>
      (case prefixMatch remaining of
        Some m0 \<Rightarrow>
          Inr (\<lparr>tileText = m0, tileType = Prefix\<rparr>, substringFrom remaining (length m0))
      | None \<Rightarrow>
      (case override remaining ''['' (CHR '']'') 0 Vowel of Some r \<Rightarrow> Inr r | None \<Rightarrow>
      (case override remaining ''{'' (CHR ''}'') 0 Consonant of Some r \<Rightarrow> Inr r | None \<Rightarrow>
      (case override remaining ''/'' (CHR ''/'') 1 Welded of Some r \<Rightarrow> Inr r | None \<Rightarrow>
      (case autoMatch remaining weldedSounds Welded of Some r \<Rightarrow> Inr r | None \<Rightarrow>
      (case autoMatch remaining vowelTeams VowelTeam of Some r \<Rightarrow> Inr r | None \<Rightarrow>
      (case autoMatch remaining rControlled RControl of Some r \<Rightarrow> Inr r | None \<Rightarrow>
      (case autoMatch remaining digraphs Digraph of Some r \<Rightarrow> Inr r | None \<Rightarrow>
       singleLetter remaining)))))))))))"


subsection \<open>What one step of the loop consumes\<close>

text \<open>The characters of the override syntax, and a string without them.\<close>

definition overrideDelimiters :: "char list" where
  "overrideDelimiters = ''|<>[]{}/''"

definition stripDelimiters :: "string \<Rightarrow> string" where
  "stripDelimiters s = filter (\<lambda>c. c \<notin> set overrideDelimiters) s"

text \<open>What a tile contributes to the text read back from the tiles: its text, and one
  space for a \<open>space\<close> tile.\<close>

definition tileContribution :: "TileData \<Rightarrow> string" where
  "tileContribution t = (if tileType t = Space then '' '' else tileText t)"

definition tilesText :: "TileData list \<Rightarrow> string" where
  "tilesText tiles = concat (map tileContribution tiles)"

lemma indexOfChar_Some:
  "indexOfChar s c = Some i \<Longrightarrow> s = take i s @ c # drop (Suc i) s \<and> c \<notin> set (take i s)"
proof (induction s arbitrary: i)
  case Nil
  then show ?case by simp
next
  case (Cons x xs)
  show ?case
  proof (cases "x = c")
    case True
    with Cons.prems show ?thesis by simp
  next
    case False
    with Cons.prems obtain j where j: "indexOfChar xs c = Some j" "i = Suc j"
      by auto
    from Cons.IH [OF j(1)] False j(2) show ?thesis by simp
  qed
qed

lemma indexOfChar_split:
  assumes "indexOfChar s c = Some i"
  shows "\<exists>u v. s = u @ c # v \<and> c \<notin> set u \<and> length u = i \<and> take i s = u \<and> drop (Suc i) s = v"
proof -
  from indexOfChar_Some [OF assms]
  have s: "s = take i s @ c # drop (Suc i) s" and n: "c \<notin> set (take i s)" by simp_all
  have "i < length s"
  proof (rule ccontr)
    assume "\<not> i < length s"
    then have "take i s = s" "drop (Suc i) s = []" by simp_all
    with s show False by (metis append_eq_append_conv list.simps(3) self_append_conv)
  qed
  then have "length (take i s) = i" by simp
  with s n show ?thesis by blast
qed

lemma override_shape:
  assumes "override remaining [opener] closer start ty = Some (t, r')"
    and "start = 1 \<or> (start = 0 \<and> opener \<noteq> closer)"
  shows "remaining = opener # tileText t @ closer # r' \<and> closer \<notin> set (tileText t) \<and> tileType t = ty"
proof -
  from assms(1) obtain rest where r: "remaining = opener # rest"
    by (cases remaining) (auto simp: override_def startsWith_def split: if_splits)
  from assms(1) obtain close where c: "indexOf remaining closer start = Some close"
    and t: "t = \<lparr>tileText = substring remaining 1 close, tileType = ty\<rparr>"
    and r': "r' = substringFrom remaining (close + 1)"
    by (auto simp: override_def split: if_splits option.splits)
  from c assms(2) r obtain i where i: "indexOfChar rest closer = Some i" and cl: "close = Suc i"
    by (auto simp: indexOf_def)
  from indexOfChar_split [OF i] obtain u v where
    uv: "rest = u @ closer # v" "closer \<notin> set u" "length u = i" by blast
  have "substring remaining 1 close = u"
    using uv r cl by (simp add: substring_def)
  moreover have "substringFrom remaining (close + 1) = v"
    using uv r cl by (simp add: substringFrom_def)
  ultimately show ?thesis using t r' r uv by simp
qed

lemma syllableMatch_shape:
  assumes "syllableMatch remaining = Some (m0, m1)"
  shows "remaining = ''|'' @ m1 @ ''|'' @ substringFrom remaining (length m0)"
proof -
  from assms obtain rest where r: "remaining = CHR ''|'' # rest"
    by (cases remaining) (auto simp: syllableMatch_def startsWith_def split: if_splits)
  from assms obtain close where c: "indexOf remaining (CHR ''|'') 1 = Some close"
    and m0: "m0 = take (close + 1) remaining" and m1: "m1 = substring remaining 1 close"
    by (auto simp: syllableMatch_def split: if_splits option.splits)
  from c r obtain i where i: "indexOfChar rest (CHR ''|'') = Some i" and cl: "close = Suc i"
    by (auto simp: indexOf_def)
  from indexOfChar_split [OF i] obtain u v where
    uv: "rest = u @ CHR ''|'' # v" "length u = i" by blast
  have "m1 = u" using uv r cl m1 by (simp add: substring_def)
  moreover have "m0 = CHR ''|'' # u @ ''|''" using uv r cl m0 by simp
  ultimately show ?thesis using r uv by (simp add: substringFrom_def)
qed

lemma suffixMatch_shape:
  assumes a: "suffixMatch remaining = Some m0"
  shows "m0 \<noteq> [] \<and> remaining = m0 @ drop (length m0) remaining"
proof (cases remaining)
  case Nil
  with a show ?thesis by (simp add: suffixMatch_def)
next
  case (Cons c rest)
  with a have m0: "m0 = c # takeWhile isAlnum rest"
    by (auto simp: suffixMatch_def split: if_splits)
  have "rest = takeWhile isAlnum rest @ drop (length (takeWhile isAlnum rest)) rest"
    by (metis takeWhile_eq_take append_take_drop_id)
  with m0 Cons show ?thesis by simp
qed

lemma prefixMatch_shape:
  assumes "prefixMatch remaining = Some m0"
  shows "m0 \<noteq> [] \<and> remaining = m0 @ drop (length m0) remaining"
proof -
  define w where "w = takeWhile isAlnum remaining"
  from assms have m0: "m0 = w @ ''-''" and st: "startsWith (drop (length w) remaining) ''-''"
    by (auto simp: prefixMatch_def w_def Let_def split: if_splits)
  have "remaining = w @ drop (length w) remaining"
    unfolding w_def by (metis takeWhile_eq_take append_take_drop_id)
  moreover from st obtain v where "drop (length w) remaining = CHR ''-'' # v"
    by (cases "drop (length w) remaining") (auto simp: startsWith_def)
  ultimately have "remaining = m0 @ v" using m0 by simp
  then show ?thesis using m0 by (metis append_eq_conv_conj snoc_eq_iff_butlast)
qed

lemma autoMatch_shape:
  assumes "autoMatch remaining table ty = Some (t, r')" and "[] \<notin> set table"
  shows "remaining = tileText t @ r' \<and> tileText t \<noteq> [] \<and> tileType t = ty"
proof -
  from assms(1) obtain p where p: "find (\<lambda>p. startsWith (toLowerCase remaining) p) table = Some p"
    and t: "t = \<lparr>tileText = substring remaining 0 (length p), tileType = ty\<rparr>"
    and r': "r' = slice remaining (length p)"
    by (auto simp: autoMatch_def split: option.splits)
  from p have "p \<in> set table" and st: "startsWith (toLowerCase remaining) p"
    by (auto simp: find_Some_iff)
  with assms(2) have pne: "p \<noteq> []" by auto
  from st have "take (length p) (map lowerChar remaining) = p"
    by (simp add: startsWith_def toLowerCase_def)
  then have "length (take (length p) (map lowerChar remaining)) = length p" by simp
  then have le: "length p \<le> length remaining" by simp
  have "substring remaining 0 (length p) = take (length p) remaining"
    using le by (simp add: substring_def)
  moreover have "take (length p) remaining \<noteq> []" using le pne by auto
  ultimately show ?thesis using t r' by (simp add: slice_def)
qed

lemma singleLetter_shape:
  "singleLetter remaining = Inr (t, r') \<Longrightarrow> remaining = tileText t @ r' \<and> tileText t \<noteq> [] \<and> tileType t \<noteq> Space"
  by (cases remaining) (auto simp: singleLetter_def slice_def split: if_splits)

text \<open>Every step of the loop consumes a non-empty prefix of \<open>remaining\<close>: what the
  tile contributes, between delimiter characters.\<close>

lemma parseStep_shape:
  assumes "parseStep remaining = Inr (t, r')"
  shows "\<exists>pre post. remaining = pre @ tileContribution t @ post @ r'
           \<and> set pre \<subseteq> set overrideDelimiters \<and> set post \<subseteq> set overrideDelimiters
           \<and> pre @ tileContribution t @ post \<noteq> []"
proof -
  let ?P = "\<lambda>pre post. remaining = pre @ tileContribution t @ post @ r'
           \<and> set pre \<subseteq> set overrideDelimiters \<and> set post \<subseteq> set overrideDelimiters
           \<and> pre @ tileContribution t @ post \<noteq> []"
  have plain: "?P [] []" if "remaining = tileText t @ r'" "tileText t \<noteq> []" "tileType t \<noteq> Space"
    using that by (simp add: tileContribution_def)
  have ov: "\<exists>pre post. ?P pre post"
    if "override remaining [opener] closer start ty = Some (t, r')"
      "start = 1 \<or> (start = 0 \<and> opener \<noteq> closer)" "ty \<noteq> Space"
      "opener \<in> set overrideDelimiters" "closer \<in> set overrideDelimiters"
    for opener closer start ty
  proof -
    from override_shape [OF that(1,2)] that(3)
    have "remaining = [opener] @ tileContribution t @ [closer] @ r'"
      by (simp add: tileContribution_def)
    with that(4,5) have "?P [opener] [closer]" by simp
    then show ?thesis by blast
  qed
  have au: "\<exists>pre post. ?P pre post"
    if "autoMatch remaining table ty = Some (t, r')" "[] \<notin> set table" "ty \<noteq> Space"
    for table ty
    using autoMatch_shape [OF that(1,2)] that(3) plain by blast
  show ?thesis
  proof (cases "startsWith remaining '' ''")
    case True
    then obtain rest where "remaining = CHR '' '' # rest"
      by (cases remaining) (auto simp: startsWith_def)
    with True assms have "?P [] []"
      by (auto simp: parseStep_def tileContribution_def slice_def)
    then show ?thesis by blast
  next
    case nospace: False
    show ?thesis
    proof (cases "syllableMatch remaining")
      case (Some m)
      obtain m0 m1 where m: "m = (m0, m1)" by (cases m)
      from assms nospace Some m have t: "t = \<lparr>tileText = m1, tileType = Syllable\<rparr>"
        and r': "r' = substringFrom remaining (length m0)"
        by (auto simp: parseStep_def)
      have "tileContribution t = m1" using t by (simp add: tileContribution_def)
      with syllableMatch_shape [OF Some [unfolded m]] r'
      have "remaining = ''|'' @ tileContribution t @ ''|'' @ r'"
        by simp
      then have "?P ''|'' ''|''" by (simp add: overrideDelimiters_def)
      then show ?thesis by blast
    next
      case r1: None
      show ?thesis
      proof (cases "override remaining ''<'' (CHR ''>'') 0 Suffix")
        case (Some x)
        with assms nospace r1 have "override remaining ''<'' (CHR ''>'') 0 Suffix = Some (t, r')"
          by (auto simp: parseStep_def)
        then show ?thesis by (rule ov) (simp_all add: overrideDelimiters_def)
      next
        case r15: None
        show ?thesis
        proof (cases "suffixMatch remaining")
          case (Some m0)
          with assms nospace r1 r15 have "t = \<lparr>tileText = m0, tileType = Suffix\<rparr>"
            "r' = substringFrom remaining (length m0)"
            by (auto simp: parseStep_def)
          with suffixMatch_shape [OF Some] have "?P [] []"
            by (intro plain) (simp_all add: substringFrom_def)
          then show ?thesis by blast
        next
          case r2: None
          show ?thesis
          proof (cases "prefixMatch remaining")
            case (Some m0)
            with assms nospace r1 r15 r2 have "t = \<lparr>tileText = m0, tileType = Prefix\<rparr>"
              "r' = substringFrom remaining (length m0)"
              by (auto simp: parseStep_def)
            with prefixMatch_shape [OF Some] have "?P [] []"
              by (intro plain) (simp_all add: substringFrom_def)
            then show ?thesis by blast
          next
            case r3: None
            note fall = nospace r1 r15 r2 r3
            show ?thesis
            proof (cases "override remaining ''['' (CHR '']'') 0 Vowel")
              case (Some x)
              with assms fall have "override remaining ''['' (CHR '']'') 0 Vowel = Some (t, r')"
                by (auto simp: parseStep_def)
              then show ?thesis by (rule ov) (simp_all add: overrideDelimiters_def)
            next
              case r4: None
              show ?thesis
              proof (cases "override remaining ''{'' (CHR ''}'') 0 Consonant")
                case (Some x)
                with assms fall r4
                have "override remaining ''{'' (CHR ''}'') 0 Consonant = Some (t, r')"
                  by (auto simp: parseStep_def)
                then show ?thesis by (rule ov) (simp_all add: overrideDelimiters_def)
              next
                case r5: None
                show ?thesis
                proof (cases "override remaining ''/'' (CHR ''/'') 1 Welded")
                  case (Some x)
                  with assms fall r4 r5
                  have "override remaining ''/'' (CHR ''/'') 1 Welded = Some (t, r')"
                    by (auto simp: parseStep_def)
                  then show ?thesis by (rule ov) (simp_all add: overrideDelimiters_def)
                next
                  case r6: None
                  from assms fall r4 r5 r6
                  consider "autoMatch remaining weldedSounds Welded = Some (t, r')"
                    | "autoMatch remaining vowelTeams VowelTeam = Some (t, r')"
                    | "autoMatch remaining rControlled RControl = Some (t, r')"
                    | "autoMatch remaining digraphs Digraph = Some (t, r')"
                    | "singleLetter remaining = Inr (t, r')"
                    by (auto simp: parseStep_def split: option.splits)
                  then show ?thesis
                  proof cases
                    case 1
                    then show ?thesis by (rule au) (simp_all add: weldedSounds_def)
                  next
                    case 2
                    then show ?thesis by (rule au) (simp_all add: vowelTeams_def)
                  next
                    case 3
                    then show ?thesis by (rule au) (simp_all add: rControlled_def)
                  next
                    case 4
                    then show ?thesis by (rule au) (simp_all add: digraphs_def)
                  next
                    case 5
                    from singleLetter_shape [OF this] have "?P [] []" by (intro plain) simp_all
                    then show ?thesis by blast
                  qed
                qed
              qed
            qed
          qed
        qed
      qed
    qed
  qed
qed

lemma parseStep_shorter:
  assumes "parseStep remaining = Inr (t, r')"
  shows "length r' < length remaining"
proof -
  from parseStep_shape [OF assms] obtain pre post where
    "remaining = pre @ tileContribution t @ post @ r'" "pre @ tileContribution t @ post \<noteq> []"
    by blast
  then have "length remaining = length (pre @ tileContribution t @ post) + length r'"
    "length (pre @ tileContribution t @ post) > 0"
    by (metis append.assoc length_append, simp)
  then show ?thesis by simp
qed

function parseLoop :: "string \<Rightarrow> TileData list \<Rightarrow> error + (TileData list \<times> string)" where
  "parseLoop remaining tiles =
     (if length remaining > 0 then
        (case parseStep remaining of
           Inl e \<Rightarrow> Inl e
         | Inr (t, r') \<Rightarrow> parseLoop r' (tiles @ [t]))
      else Inr (tiles, remaining))"
  by pat_completeness auto
termination
  by (relation "measure (\<lambda>(remaining, tiles). length remaining)")
     (auto simp: parseStep_shorter)

definition parseWordToTiles :: "string \<Rightarrow> error + TileData list" where
  "parseWordToTiles word =
     (case parseLoop word [] of Inl e \<Rightarrow> Inl e | Inr (tiles, remaining) \<Rightarrow> Inr tiles)"


subsection \<open>Properties of the tokenizer\<close>

lemma parseStep_total:
  assumes "remaining \<noteq> []"
  shows "\<exists>t r'. parseStep remaining = Inr (t, r')"
proof -
  from assms obtain c rest where "remaining = c # rest" by (cases remaining) auto
  then have "\<exists>x. singleLetter remaining = Inr x" by (simp add: singleLetter_def)
  then have "\<exists>x. parseStep remaining = Inr x"
    by (auto simp: parseStep_def split: option.splits)
  then show ?thesis by auto
qed

lemma stripDelimiters_append:
  "stripDelimiters (a @ b) = stripDelimiters a @ stripDelimiters b"
  by (simp add: stripDelimiters_def)

lemma stripDelimiters_delims:
  "set a \<subseteq> set overrideDelimiters \<Longrightarrow> stripDelimiters a = []"
  by (auto simp: stripDelimiters_def filter_empty_conv)

lemma tilesText_append: "tilesText (a @ b) = tilesText a @ tilesText b"
  by (simp add: tilesText_def)

lemma parseLoop_result:
  "\<exists>ts. parseLoop remaining tiles = Inr (tiles @ ts, [])
     \<and> length ts \<le> length remaining
     \<and> subseq (tilesText ts) remaining
     \<and> stripDelimiters (tilesText ts) = stripDelimiters remaining"
proof (induction remaining tiles rule: parseLoop.induct)
  case (1 remaining tiles)
  show ?case
  proof (cases "remaining = []")
    case True
    then show ?thesis by (simp add: tilesText_def)
  next
    case False
    from parseStep_total [OF False] obtain t r' where step: "parseStep remaining = Inr (t, r')"
      by blast
    from parseStep_shape [OF step] obtain pre post where
      shape: "remaining = pre @ tileContribution t @ post @ r'"
      and pre: "set pre \<subseteq> set overrideDelimiters" and post: "set post \<subseteq> set overrideDelimiters"
      by blast
    from False have "0 < length remaining" by simp
    from "1.IH" [OF this step refl] obtain ts where
      ts: "parseLoop r' (tiles @ [t]) = Inr ((tiles @ [t]) @ ts, [])"
      "length ts \<le> length r'" "subseq (tilesText ts) r'"
      "stripDelimiters (tilesText ts) = stripDelimiters r'"
      by blast
    have loop: "parseLoop remaining tiles = Inr (tiles @ (t # ts), [])"
      using False step ts(1) by simp
    have len: "length (t # ts) \<le> length remaining"
      using ts(2) parseStep_shorter [OF step] by simp
    have ttx: "tilesText (t # ts) = tileContribution t @ tilesText ts"
      by (simp add: tilesText_def)
    have "subseq (tileContribution t @ tilesText ts) (tileContribution t @ post @ r')"
      using ts(3) by (simp add: subseq_append' subseq_drop_many)
    then have "subseq (tileContribution t @ tilesText ts) (pre @ tileContribution t @ post @ r')"
      by (rule subseq_drop_many)
    then have sub: "subseq (tilesText (t # ts)) remaining"
      using shape ttx by simp
    have "stripDelimiters remaining
        = stripDelimiters pre @ stripDelimiters (tileContribution t) @ stripDelimiters post
          @ stripDelimiters r'"
      by (subst shape) (simp only: stripDelimiters_append)
    then have strip: "stripDelimiters (tilesText (t # ts)) = stripDelimiters remaining"
      using ts(4) ttx stripDelimiters_delims [OF pre] stripDelimiters_delims [OF post]
      by (simp add: stripDelimiters_append)
    from loop len sub strip show ?thesis by blast
  qed
qed

lemma subseq_filter_eq:
  assumes "subseq xs ys" "filter P xs = ys"
  shows "xs = ys"
proof -
  from assms(2) have "length ys \<le> length xs" by (metis length_filter_le)
  moreover from assms(1) have "length xs \<le> length ys" by (rule list_emb_length)
  ultimately have "length xs = length ys" by simp
  with assms(1) show ?thesis by (rule subseq_same_length)
qed

subsection \<open>Matched overrides\<close>

text \<open>The closing delimiter of each opening delimiter of the override rules: \<open>|...|\<close>,
  \<open><...>\<close>, \<open>[...]\<close>, \<open>{...}\<close> and \<open>/.../\<close>.\<close>

definition closerOf :: "char \<Rightarrow> char option" where
  "closerOf c =
     (if c = CHR ''|'' then Some (CHR ''|'')
      else if c = CHR ''<'' then Some (CHR ''>'')
      else if c = CHR ''['' then Some (CHR '']'')
      else if c = CHR ''{'' then Some (CHR ''}'')
      else if c = CHR ''/'' then Some (CHR ''/'')
      else None)"

text \<open>A word without its matched overrides, read from the left: an opening delimiter
  that has its closing delimiter somewhere after it goes, together with the next
  occurrence of that closing delimiter, and what stands between the two stays as it is.
  Every other character stays: an opening delimiter that is never closed, a closing
  delimiter on its own, and any delimiter between a matched pair.\<close>

lemma tl_dropWhile_shorter: "length (dropWhile P xs) - Suc 0 < Suc (length xs)"
proof -
  have "length (dropWhile P xs) \<le> length xs" by (rule length_dropWhile_le)
  then show ?thesis by simp
qed

function stripOverrides :: "string \<Rightarrow> string" where
  "stripOverrides [] = []"
| "stripOverrides (c # rest) =
     (case closerOf c of
        None \<Rightarrow> c # stripOverrides rest
      | Some closer \<Rightarrow>
          if closer \<in> set rest
          then takeWhile (\<lambda>d. d \<noteq> closer) rest
               @ stripOverrides (tl (dropWhile (\<lambda>d. d \<noteq> closer) rest))
          else c # stripOverrides rest)"
  by pat_completeness auto
termination
  by (relation "measure length") (simp_all add: tl_dropWhile_shorter)

text \<open>The words in which every delimiter belongs to a matched override: each opening
  delimiter met from the left has its closing delimiter after it, there is no delimiter
  between the two, and no closing delimiter stands on its own.\<close>

function bracketsMatched :: "string \<Rightarrow> bool" where
  "bracketsMatched [] = True"
| "bracketsMatched (c # rest) =
     (case closerOf c of
        None \<Rightarrow> c \<notin> set overrideDelimiters \<and> bracketsMatched rest
      | Some closer \<Rightarrow>
          closer \<in> set rest
          \<and> stripDelimiters (takeWhile (\<lambda>d. d \<noteq> closer) rest) = takeWhile (\<lambda>d. d \<noteq> closer) rest
          \<and> bracketsMatched (tl (dropWhile (\<lambda>d. d \<noteq> closer) rest)))"
  by pat_completeness auto
termination
  by (relation "measure length") (simp_all add: tl_dropWhile_shorter)

text \<open>The part of the word that one tile stands for: what the tile contributes, or the
  tile's text between an opening delimiter and its closing delimiter.\<close>

definition accountsFor :: "string \<Rightarrow> TileData \<Rightarrow> bool" where
  "accountsFor seg t =
     (seg \<noteq> []
      \<and> (seg = tileContribution t
          \<or> (case seg of
                [] \<Rightarrow> False
              | opener # rest \<Rightarrow>
                  (case closerOf opener of
                     None \<Rightarrow> False
                   | Some closer \<Rightarrow> rest = tileText t @ [closer]))))"

lemma indexOfChar_None: "indexOfChar s c = None \<longleftrightarrow> c \<notin> set s"
  by (induction s) auto

lemma closer_split:
  assumes "closer \<in> set rest"
  shows "rest = takeWhile (\<lambda>d. d \<noteq> closer) rest
           @ closer # tl (dropWhile (\<lambda>d. d \<noteq> closer) rest)"
proof -
  from assms have ne: "dropWhile (\<lambda>d. d \<noteq> closer) rest \<noteq> []" by (simp add: dropWhile_eq_Nil_conv)
  then have "hd (dropWhile (\<lambda>d. d \<noteq> closer) rest) = closer"
    using hd_dropWhile [of "\<lambda>d. d \<noteq> closer" rest] by simp
  with ne have "dropWhile (\<lambda>d. d \<noteq> closer) rest
      = closer # tl (dropWhile (\<lambda>d. d \<noteq> closer) rest)"
    by (metis list.collapse)
  then show ?thesis
    by (metis takeWhile_dropWhile_id)
qed

lemma closer_first:
  assumes "closer \<notin> set x"
  shows "takeWhile (\<lambda>d. d \<noteq> closer) (x @ closer # v) = x"
    and "tl (dropWhile (\<lambda>d. d \<noteq> closer) (x @ closer # v)) = v"
proof -
  from assms have all: "\<And>d. d \<in> set x \<Longrightarrow> d \<noteq> closer" by auto
  show "takeWhile (\<lambda>d. d \<noteq> closer) (x @ closer # v) = x"
    using all by (simp add: takeWhile_append2)
  show "tl (dropWhile (\<lambda>d. d \<noteq> closer) (x @ closer # v)) = v"
    using all by (simp add: dropWhile_append2)
qed

lemma stripOverrides_pair:
  assumes "closerOf opener = Some closer" and "closer \<notin> set x"
  shows "stripOverrides (opener # x @ closer # v) = x @ stripOverrides v"
  using assms closer_first [OF assms(2), of v] by simp

lemma stripOverrides_unmatched:
  assumes "closerOf c = None \<or> (\<exists>closer. closerOf c = Some closer \<and> closer \<notin> set rest)"
  shows "stripOverrides (c # rest) = c # stripOverrides rest"
  using assms by auto

lemma stripOverrides_plain:
  "\<forall>c \<in> set u. closerOf c = None \<Longrightarrow> stripOverrides (u @ v) = u @ stripOverrides v"
  by (induction u) simp_all

lemma closerOf_alnum: "isAlnum c \<Longrightarrow> closerOf c = None"
  by (auto simp: closerOf_def isAlnum_def)

lemma closerOf_alnum_run: "c \<in> set (takeWhile isAlnum s) \<Longrightarrow> closerOf c = None"
  using set_takeWhileD [of c isAlnum s] by (simp add: closerOf_alnum)

lemma closerOf_hyphen: "closerOf (CHR ''-'') = None"
  by (simp add: closerOf_def)

lemma closerOf_lower: "closerOf c = Some closer \<Longrightarrow> lowerChar c = c"
  by (auto simp: closerOf_def lowerChar_def split: if_splits)

lemma closerOf_delimiter:
  "closerOf c = Some closer \<Longrightarrow> c \<in> set overrideDelimiters \<and> closer \<in> set overrideDelimiters"
  by (auto simp: closerOf_def overrideDelimiters_def split: if_splits)

lemma lower_plain:
  assumes "toLowerCase u = p" and "\<forall>d \<in> set p. closerOf d = None"
  shows "\<forall>c \<in> set u. closerOf c = None"
proof
  fix c
  assume c: "c \<in> set u"
  show "closerOf c = None"
  proof (cases "closerOf c")
    case None
    then show ?thesis .
  next
    case (Some closer)
    from c assms(1) have "lowerChar c \<in> set p" by (auto simp: toLowerCase_def)
    with closerOf_lower [OF Some] assms(2) have "closerOf c = None" by simp
    with Some show ?thesis by simp
  qed
qed

lemma autoMatch_lower:
  assumes "autoMatch remaining table ty = Some (t, r')"
  shows "toLowerCase (tileText t) \<in> set table"
proof -
  from assms obtain p where p: "find (\<lambda>p. startsWith (toLowerCase remaining) p) table = Some p"
    and t: "t = \<lparr>tileText = substring remaining 0 (length p), tileType = ty\<rparr>"
    by (auto simp: autoMatch_def split: option.splits)
  from p have mem: "p \<in> set table" and st: "startsWith (toLowerCase remaining) p"
    by (auto simp: find_Some_iff)
  from st have "map lowerChar (take (length p) remaining) = p"
    by (simp add: startsWith_def toLowerCase_def take_map)
  moreover have "substring remaining 0 (length p) = take (length p) remaining"
    by (simp add: substring_def min_def)
  ultimately show ?thesis using t mem by (simp add: toLowerCase_def)
qed

lemma syllableMatch_text:
  assumes "syllableMatch remaining = Some (m0, m1)"
  shows "CHR ''|'' \<notin> set m1"
proof -
  from assms obtain rest where r: "remaining = CHR ''|'' # rest"
    by (cases remaining) (auto simp: syllableMatch_def startsWith_def split: if_splits)
  from assms obtain close where c: "indexOf remaining (CHR ''|'') 1 = Some close"
    and m1: "m1 = substring remaining 1 close"
    by (auto simp: syllableMatch_def split: if_splits option.splits)
  from c r obtain i where i: "indexOfChar rest (CHR ''|'') = Some i" and cl: "close = Suc i"
    by (auto simp: indexOf_def)
  from indexOfChar_split [OF i] obtain u v where
    uv: "rest = u @ CHR ''|'' # v" "CHR ''|'' \<notin> set u" "length u = i" by blast
  have "m1 = u" using uv r cl m1 by (simp add: substring_def)
  with uv show ?thesis by simp
qed

lemma syllableMatch_None:
  "syllableMatch (CHR ''|'' # rest) = None \<Longrightarrow> CHR ''|'' \<notin> set rest"
  by (auto simp: syllableMatch_def startsWith_def indexOf_def indexOfChar_None
      split: option.splits)

lemma override_None:
  assumes "override (opener # rest) [opener] closer start ty = None"
    and "start = 1 \<or> (start = 0 \<and> opener \<noteq> closer)"
  shows "closer \<notin> set rest"
  using assms
  by (auto simp: override_def startsWith_def indexOf_def indexOfChar_None split: option.splits)

text \<open>One step of the loop stands for a non-empty part of \<open>remaining\<close>, and reads
  back as that part without its matched override.\<close>

lemma parseStep_account:
  assumes "parseStep remaining = Inr (t, r')"
  shows "(\<exists>seg. remaining = seg @ r' \<and> accountsFor seg t)
     \<and> stripOverrides remaining = tileContribution t @ stripOverrides r'"
proof -
  let ?P = "(\<exists>seg. remaining = seg @ r' \<and> accountsFor seg t)
     \<and> stripOverrides remaining = tileContribution t @ stripOverrides r'"
  have plain: ?P
    if "remaining = tileText t @ r'" "tileText t \<noteq> []" "tileType t \<noteq> Space"
      "\<forall>c \<in> set (tileText t). closerOf c = None"
  proof -
    from that(3) have c: "tileContribution t = tileText t" by (simp add: tileContribution_def)
    have "accountsFor (tileText t) t" using that(2) c by (simp add: accountsFor_def)
    moreover have "stripOverrides remaining = tileText t @ stripOverrides r'"
      by (subst that(1)) (rule stripOverrides_plain [OF that(4)])
    ultimately show ?thesis using that(1) c by auto
  qed
  have ov: ?P
    if "override remaining [opener] closer start ty = Some (t, r')"
      "start = 1 \<or> (start = 0 \<and> opener \<noteq> closer)" "ty \<noteq> Space"
      "closerOf opener = Some closer"
    for opener closer start ty
  proof -
    from override_shape [OF that(1,2)] that(3)
    have r: "remaining = opener # tileText t @ closer # r'"
      and n: "closer \<notin> set (tileText t)" and c: "tileContribution t = tileText t"
      by (simp_all add: tileContribution_def)
    have "accountsFor (opener # tileText t @ [closer]) t"
      using that(4) by (simp add: accountsFor_def)
    moreover have "remaining = (opener # tileText t @ [closer]) @ r'" using r by simp
    moreover have "stripOverrides remaining = tileText t @ stripOverrides r'"
      by (subst r) (rule stripOverrides_pair [OF that(4) n])
    ultimately show ?thesis using c by metis
  qed
  have au: ?P
    if "autoMatch remaining table ty = Some (t, r')" "[] \<notin> set table" "ty \<noteq> Space"
      "\<forall>p \<in> set table. \<forall>d \<in> set p. closerOf d = None"
    for table ty
  proof -
    from autoMatch_lower [OF that(1)] that(4)
    have "\<forall>d \<in> set (toLowerCase (tileText t)). closerOf d = None" by blast
    from lower_plain [OF refl this] autoMatch_shape [OF that(1,2)] that(3) show ?thesis
      by (intro plain) simp_all
  qed
  show ?thesis
  proof (cases "startsWith remaining '' ''")
    case True
    then obtain rest where r: "remaining = CHR '' '' # rest"
      by (cases remaining) (auto simp: startsWith_def)
    with True assms have t: "tileType t = Space" and r': "r' = rest"
      by (auto simp: parseStep_def slice_def)
    have "accountsFor '' '' t" using t by (simp add: accountsFor_def tileContribution_def)
    moreover have "remaining = '' '' @ r'" using r r' by simp
    moreover have "stripOverrides remaining = '' '' @ stripOverrides r'"
      unfolding r r' by (simp add: closerOf_def)
    ultimately show ?thesis using t by (metis tileContribution_def)
  next
    case nospace: False
    show ?thesis
    proof (cases "syllableMatch remaining")
      case (Some m)
      obtain m0 m1 where m: "m = (m0, m1)" by (cases m)
      from assms nospace Some m have t: "t = \<lparr>tileText = m1, tileType = Syllable\<rparr>"
        and r': "r' = substringFrom remaining (length m0)"
        by (auto simp: parseStep_def)
      have c: "tileContribution t = m1" "tileText t = m1" using t by (simp_all add: tileContribution_def)
      from syllableMatch_shape [OF Some [unfolded m]] r'
      have r: "remaining = CHR ''|'' # m1 @ CHR ''|'' # r'" by simp
      note n = syllableMatch_text [OF Some [unfolded m]]
      have "accountsFor (CHR ''|'' # m1 @ ''|'') t"
        using c by (simp add: accountsFor_def closerOf_def)
      moreover have "remaining = (CHR ''|'' # m1 @ ''|'') @ r'" using r by simp
      moreover have "stripOverrides remaining = m1 @ stripOverrides r'"
        by (subst r) (rule stripOverrides_pair [OF _ n], simp add: closerOf_def)
      ultimately show ?thesis using c by metis
    next
      case r1: None
      show ?thesis
      proof (cases "override remaining ''<'' (CHR ''>'') 0 Suffix")
        case (Some x)
        with assms nospace r1 have "override remaining ''<'' (CHR ''>'') 0 Suffix = Some (t, r')"
          by (auto simp: parseStep_def)
        then show ?thesis by (rule ov) (simp_all add: closerOf_def)
      next
        case r15: None
        show ?thesis
        proof (cases "suffixMatch remaining")
          case (Some m0)
          with assms nospace r1 r15 have t: "t = \<lparr>tileText = m0, tileType = Suffix\<rparr>"
            and r': "r' = substringFrom remaining (length m0)"
            by (auto simp: parseStep_def)
          from Some have "\<forall>c \<in> set m0. closerOf c = None"
            by (cases remaining)
              (auto simp: suffixMatch_def closerOf_alnum_run closerOf_hyphen split: if_splits)
          with suffixMatch_shape [OF Some] t r' show ?thesis
            by (intro plain) (simp_all add: substringFrom_def)
        next
          case r2: None
          show ?thesis
          proof (cases "prefixMatch remaining")
            case (Some m0)
            with assms nospace r1 r15 r2 have t: "t = \<lparr>tileText = m0, tileType = Prefix\<rparr>"
              and r': "r' = substringFrom remaining (length m0)"
              by (auto simp: parseStep_def)
            from Some have "m0 = takeWhile isAlnum remaining @ ''-''"
              by (auto simp: prefixMatch_def Let_def split: if_splits)
            then have "\<forall>c \<in> set m0. closerOf c = None"
              by (auto simp: closerOf_alnum_run closerOf_hyphen)
            with prefixMatch_shape [OF Some] t r' show ?thesis
              by (intro plain) (simp_all add: substringFrom_def)
          next
            case r3: None
            note fall = nospace r1 r15 r2 r3
            show ?thesis
            proof (cases "override remaining ''['' (CHR '']'') 0 Vowel")
              case (Some x)
              with assms fall have "override remaining ''['' (CHR '']'') 0 Vowel = Some (t, r')"
                by (auto simp: parseStep_def)
              then show ?thesis by (rule ov) (simp_all add: closerOf_def)
            next
              case r4: None
              show ?thesis
              proof (cases "override remaining ''{'' (CHR ''}'') 0 Consonant")
                case (Some x)
                with assms fall r4
                have "override remaining ''{'' (CHR ''}'') 0 Consonant = Some (t, r')"
                  by (auto simp: parseStep_def)
                then show ?thesis by (rule ov) (simp_all add: closerOf_def)
              next
                case r5: None
                show ?thesis
                proof (cases "override remaining ''/'' (CHR ''/'') 1 Welded")
                  case (Some x)
                  with assms fall r4 r5
                  have "override remaining ''/'' (CHR ''/'') 1 Welded = Some (t, r')"
                    by (auto simp: parseStep_def)
                  then show ?thesis by (rule ov) (simp_all add: closerOf_def)
                next
                  case r6: None
                  from assms fall r4 r5 r6
                  consider "autoMatch remaining weldedSounds Welded = Some (t, r')"
                    | "autoMatch remaining vowelTeams VowelTeam = Some (t, r')"
                    | "autoMatch remaining rControlled RControl = Some (t, r')"
                    | "autoMatch remaining digraphs Digraph = Some (t, r')"
                    | "singleLetter remaining = Inr (t, r')"
                    by (auto simp: parseStep_def split: option.splits)
                  then show ?thesis
                  proof cases
                    case 1
                    then show ?thesis
                      by (rule au) (simp_all add: weldedSounds_def closerOf_def)
                  next
                    case 2
                    then show ?thesis
                      by (rule au) (simp_all add: vowelTeams_def closerOf_def)
                  next
                    case 3
                    then show ?thesis
                      by (rule au) (simp_all add: rControlled_def closerOf_def)
                  next
                    case 4
                    then show ?thesis
                      by (rule au) (simp_all add: digraphs_def closerOf_def)
                  next
                    case 5
                    then obtain c rest where r: "remaining = c # rest"
                      and t: "tileText t = [c]" "tileType t \<noteq> Space" and r': "r' = rest"
                      by (cases remaining) (auto simp: singleLetter_def slice_def split: if_splits)
                    have un: "closerOf c = None
                        \<or> (\<exists>closer. closerOf c = Some closer \<and> closer \<notin> set rest)"
                    proof (cases "closerOf c")
                      case None
                      then show ?thesis by simp
                    next
                      case (Some closer)
                      then consider "c = CHR ''|''" "closer = CHR ''|''"
                        | "c = CHR ''<''" "closer = CHR ''>''"
                        | "c = CHR ''[''" "closer = CHR '']''"
                        | "c = CHR ''{''" "closer = CHR ''}''"
                        | "c = CHR ''/''" "closer = CHR ''/''"
                        by (auto simp: closerOf_def split: if_splits)
                      then have "closer \<notin> set rest"
                      proof cases
                        case 1
                        with r1 r show ?thesis by (simp add: syllableMatch_None)
                      next
                        case 2
                        with r15 r override_None [of c rest closer 0 Suffix] show ?thesis by simp
                      next
                        case 3
                        with r4 r override_None [of c rest closer 0 Vowel] show ?thesis by simp
                      next
                        case 4
                        with r5 r override_None [of c rest closer 0 Consonant] show ?thesis by simp
                      next
                        case 5
                        with r6 r override_None [of c rest closer 1 Welded] show ?thesis by simp
                      qed
                      with Some show ?thesis by simp
                    qed
                    have c: "tileContribution t = [c]" using t by (simp add: tileContribution_def)
                    have "accountsFor [c] t" using c by (simp add: accountsFor_def)
                    moreover have "remaining = [c] @ r'" using r r' by simp
                    moreover have "stripOverrides remaining = [c] @ stripOverrides r'"
                      unfolding r r' using stripOverrides_unmatched [OF un] by simp
                    ultimately show ?thesis using c by metis
                  qed
                qed
              qed
            qed
          qed
        qed
      qed
    qed
  qed
qed

lemma parseLoop_account:
  "\<exists>ts segs. parseLoop remaining tiles = Inr (tiles @ ts, [])
     \<and> concat segs = remaining \<and> list_all2 accountsFor segs ts
     \<and> tilesText ts = stripOverrides remaining"
proof (induction remaining tiles rule: parseLoop.induct)
  case (1 remaining tiles)
  show ?case
  proof (cases "remaining = []")
    case True
    then have "parseLoop remaining tiles = Inr (tiles @ [], [])
        \<and> concat [] = remaining \<and> list_all2 accountsFor [] []
        \<and> tilesText [] = stripOverrides remaining"
      by (simp add: tilesText_def)
    then show ?thesis by blast
  next
    case False
    from parseStep_total [OF False] obtain t r' where step: "parseStep remaining = Inr (t, r')"
      by blast
    from parseStep_account [OF step] obtain seg where
      seg: "remaining = seg @ r'" "accountsFor seg t"
      and strip: "stripOverrides remaining = tileContribution t @ stripOverrides r'"
      by blast
    from False have "0 < length remaining" by simp
    from "1.IH" [OF this step refl] obtain ts segs where
      ts: "parseLoop r' (tiles @ [t]) = Inr ((tiles @ [t]) @ ts, [])"
      "concat segs = r'" "list_all2 accountsFor segs ts"
      "tilesText ts = stripOverrides r'"
      by blast
    have "parseLoop remaining tiles = Inr (tiles @ (t # ts), [])"
      using False step ts(1) by simp
    moreover have "concat (seg # segs) = remaining" using seg(1) ts(2) by simp
    moreover have "list_all2 accountsFor (seg # segs) (t # ts)" using seg(2) ts(3) by simp
    moreover have "tilesText (t # ts) = stripOverrides remaining"
      using strip ts(4) by (simp add: tilesText_def)
    ultimately show ?thesis by blast
  qed
qed

lemma stripDelimiters_Cons:
  "stripDelimiters (c # s) = (if c \<in> set overrideDelimiters then stripDelimiters s
     else c # stripDelimiters s)"
  by (simp add: stripDelimiters_def)

text \<open>When all delimiters are matched, the matched overrides are all the delimiters.\<close>

lemma bracketsMatched_strip:
  "bracketsMatched w \<Longrightarrow> stripOverrides w = stripDelimiters w"
proof (induction w rule: stripOverrides.induct)
  case 1
  then show ?case by (simp add: stripDelimiters_def)
next
  case (2 c rest)
  show ?case
  proof (cases "closerOf c")
    case None
    with "2.prems" have "c \<notin> set overrideDelimiters" "bracketsMatched rest" by simp_all
    with "2.IH"(1) [OF None] None show ?thesis by (simp add: stripDelimiters_Cons)
  next
    case (Some closer)
    let ?x = "takeWhile (\<lambda>d. d \<noteq> closer) rest"
    let ?v = "tl (dropWhile (\<lambda>d. d \<noteq> closer) rest)"
    from "2.prems" Some have mem: "closer \<in> set rest" and x: "stripDelimiters ?x = ?x"
      and v: "bracketsMatched ?v"
      by simp_all
    from "2.IH"(2) [OF Some mem v] have IH: "stripOverrides ?v = stripDelimiters ?v" .
    from closerOf_delimiter [OF Some]
    have d: "c \<in> set overrideDelimiters" "closer \<in> set overrideDelimiters" by simp_all
    have "stripDelimiters (c # rest) = stripDelimiters (c # ?x @ closer # ?v)"
      using closer_split [OF mem] by simp
    also have "\<dots> = stripDelimiters ?x @ stripDelimiters ?v"
      using d by (simp add: stripDelimiters_Cons stripDelimiters_append)
    finally have "stripDelimiters (c # rest) = ?x @ stripDelimiters ?v" using x by simp
    moreover have "stripOverrides (c # rest) = ?x @ stripOverrides ?v"
      using Some mem by simp
    ultimately show ?thesis using IH by simp
  qed
qed

lemma stripDelimiters_stripOverrides:
  "stripDelimiters (stripOverrides w) = stripDelimiters w"
proof (induction w rule: stripOverrides.induct)
  case 1
  then show ?case by simp
next
  case (2 c rest)
  show ?case
  proof (cases "closerOf c")
    case None
    with "2.IH"(1) show ?thesis by (simp add: stripDelimiters_Cons)
  next
    case (Some closer)
    let ?x = "takeWhile (\<lambda>d. d \<noteq> closer) rest"
    let ?v = "tl (dropWhile (\<lambda>d. d \<noteq> closer) rest)"
    from closerOf_delimiter [OF Some]
    have d: "c \<in> set overrideDelimiters" "closer \<in> set overrideDelimiters" by simp_all
    show ?thesis
    proof (cases "closer \<in> set rest")
      case True
      have "stripDelimiters (c # rest) = stripDelimiters (c # ?x @ closer # ?v)"
        using closer_split [OF True] by simp
      also have "\<dots> = stripDelimiters ?x @ stripDelimiters ?v"
        using d by (simp add: stripDelimiters_Cons stripDelimiters_append)
      finally show ?thesis
        using Some True "2.IH"(2) [OF Some True] by (simp add: stripDelimiters_append)
    next
      case False
      with Some "2.IH"(3) [OF Some False] show ?thesis by (simp add: stripDelimiters_Cons)
    qed
  qed
qed

lemma stripDelimiters_no_delimiter: "c \<in> set (stripDelimiters w) \<Longrightarrow> c \<notin> set overrideDelimiters"
  by (simp add: stripDelimiters_def)

lemma stripDelimiters_length: "length (stripDelimiters w) \<le> length w"
  by (simp add: stripDelimiters_def)

text \<open>The converse: when the word without its matched overrides has no delimiter left,
  all delimiters of the word are matched.\<close>

lemma strip_bracketsMatched:
  "stripOverrides w = stripDelimiters w \<Longrightarrow> bracketsMatched w"
proof (induction w rule: stripOverrides.induct)
  case 1
  then show ?case by simp
next
  case (2 c rest)
  have keep: False
    if "stripOverrides (c # rest) = c # stripOverrides rest" "c \<in> set overrideDelimiters"
  proof -
    from that(1) "2.prems" have "c \<in> set (stripDelimiters (c # rest))"
      by (metis list.set_intros(1))
    from stripDelimiters_no_delimiter [OF this] that(2) show False by simp
  qed
  show ?case
  proof (cases "closerOf c")
    case None
    then have so: "stripOverrides (c # rest) = c # stripOverrides rest" by simp
    with keep have nd: "c \<notin> set overrideDelimiters" by blast
    with so "2.prems" have "stripOverrides rest = stripDelimiters rest"
      by (simp add: stripDelimiters_Cons)
    from "2.IH"(1) [OF None this] nd None show ?thesis by simp
  next
    case (Some closer)
    let ?x = "takeWhile (\<lambda>d. d \<noteq> closer) rest"
    let ?v = "tl (dropWhile (\<lambda>d. d \<noteq> closer) rest)"
    from closerOf_delimiter [OF Some]
    have d: "c \<in> set overrideDelimiters" "closer \<in> set overrideDelimiters" by simp_all
    have mem: "closer \<in> set rest"
    proof (rule ccontr)
      assume "closer \<notin> set rest"
      with Some have "stripOverrides (c # rest) = c # stripOverrides rest" by simp
      from keep [OF this d(1)] show False .
    qed
    have so: "stripOverrides (c # rest) = ?x @ stripOverrides ?v" using Some mem by simp
    have "stripDelimiters (c # rest) = stripDelimiters (c # ?x @ closer # ?v)"
      using closer_split [OF mem] by simp
    also have "\<dots> = stripDelimiters ?x @ stripDelimiters ?v"
      using d by (simp add: stripDelimiters_Cons stripDelimiters_append)
    finally have eq: "?x @ stripOverrides ?v = stripDelimiters ?x @ stripDelimiters ?v"
      using so "2.prems" by simp
    have "length (stripDelimiters ?v) \<le> length (stripOverrides ?v)"
      using stripDelimiters_length [of "stripOverrides ?v"]
      by (simp add: stripDelimiters_stripOverrides)
    moreover have "length (stripDelimiters ?x) \<le> length ?x" by (rule stripDelimiters_length)
    moreover from eq have "length ?x + length (stripOverrides ?v)
        = length (stripDelimiters ?x) + length (stripDelimiters ?v)"
      by (metis length_append)
    ultimately have "length ?x = length (stripDelimiters ?x)" by linarith
    with eq have x: "stripDelimiters ?x = ?x" and v: "stripOverrides ?v = stripDelimiters ?v"
      by simp_all
    from "2.IH"(2) [OF Some mem v] x mem Some show ?thesis by simp
  qed
qed

text \<open>
  Claim C1, as amended. For every string \<open>word\<close>, \<open>parseWordToTiles\<close> returns tiles
  whose texts, read back in order with one space for each \<open>space\<close> tile, are \<open>word\<close>
  without its matched overrides: of each opening delimiter that is closed later, the
  two delimiters go and nothing else. A delimiter that is not part of a matched override
  (an opener that is never closed, a closer on its own, a delimiter inside another
  override) stays in a tile's text. So the text read back is the delimiter-stripped
  word exactly when every delimiter of the word is matched, with no delimiter inside an
  override; that is so for every word without delimiters.
\<close>

theorem tiles_text_strips_matched_overrides:
  "\<exists>tiles. parseWordToTiles word = Inr tiles
     \<and> tilesText tiles = stripOverrides word
     \<and> (tilesText tiles = stripDelimiters word \<longleftrightarrow> bracketsMatched word)
     \<and> (stripDelimiters word = word \<longrightarrow> tilesText tiles = word)"
proof -
  from parseLoop_account [of word "[]"] obtain ts where
    ts: "parseLoop word [] = Inr (ts, [])" "tilesText ts = stripOverrides word"
    by auto
  have iff: "tilesText ts = stripDelimiters word \<longleftrightarrow> bracketsMatched word"
    using ts(2) bracketsMatched_strip [of word] strip_bracketsMatched [of word] by auto
  have "tilesText ts = word" if "stripDelimiters word = word"
  proof -
    from parseLoop_result [of word "[]"] ts(1)
    have "subseq (tilesText ts) word" "stripDelimiters (tilesText ts) = stripDelimiters word"
      by simp_all
    with that subseq_filter_eq [of "tilesText ts" word] show ?thesis
      by (simp add: stripDelimiters_def)
  qed
  with ts iff show ?thesis by (simp add: parseWordToTiles_def)
qed

text \<open>The theorem of C1 at a word with one override of each kind, where the text read
  back is the delimiter-stripped word, and at a word without delimiters.\<close>

theorem tiles_text_strips_matched_overrides_witness:
  "bracketsMatched ''{a}[b]/an/<ed>|x y|''
   \<and> stripDelimiters ''{a}[b]/an/<ed>|x y|'' = ''abanedx y''
   \<and> (\<exists>tiles. parseWordToTiles ''{a}[b]/an/<ed>|x y|'' = Inr tiles
         \<and> tilesText tiles = ''abanedx y'')
   \<and> stripDelimiters ''ship at'' = ''ship at''
   \<and> (\<exists>tiles. parseWordToTiles ''ship at'' = Inr tiles \<and> tilesText tiles = ''ship at'')"
proof -
  have a: "bracketsMatched ''{a}[b]/an/<ed>|x y|''" by code_simp
  have b: "stripDelimiters ''{a}[b]/an/<ed>|x y|'' = ''abanedx y''" by code_simp
  have c: "stripDelimiters ''ship at'' = ''ship at''" by code_simp
  from tiles_text_strips_matched_overrides [of "''{a}[b]/an/<ed>|x y|''"] a b
  have "\<exists>tiles. parseWordToTiles ''{a}[b]/an/<ed>|x y|'' = Inr tiles
         \<and> tilesText tiles = ''abanedx y''"
    by auto
  moreover from tiles_text_strips_matched_overrides [of "''ship at''"] c
  have "\<exists>tiles. parseWordToTiles ''ship at'' = Inr tiles \<and> tilesText tiles = ''ship at''"
    by auto
  ultimately show ?thesis using a b c by blast
qed

text \<open>
  Claim C1 as stated fails: the word \<open>{cat\<close> has only letters and a delimiter, its
  brace is never closed, and the brace becomes a consonant tile. The tiles read \<open>{cat\<close>,
  the delimiter-stripped word is \<open>cat\<close>.
\<close>

theorem unterminated_override_keeps_delimiter:
  "parseWordToTiles ''{cat'' =
     Inr [\<lparr>tileText = ''{'', tileType = Consonant\<rparr>, \<lparr>tileText = ''c'', tileType = Consonant\<rparr>,
          \<lparr>tileText = ''a'', tileType = Vowel\<rparr>, \<lparr>tileText = ''t'', tileType = Consonant\<rparr>]
   \<and> tilesText [\<lparr>tileText = ''{'', tileType = Consonant\<rparr>, \<lparr>tileText = ''c'', tileType = Consonant\<rparr>,
          \<lparr>tileText = ''a'', tileType = Vowel\<rparr>, \<lparr>tileText = ''t'', tileType = Consonant\<rparr>] = ''{cat''
   \<and> stripDelimiters ''{cat'' = ''cat''"
  by code_simp

text \<open>
  Claim C2. \<open>{a}\<close> gives exactly one consonant tile with text \<open>a\<close>, \<open>[a]\<close> exactly one
  vowel tile with text \<open>a\<close>, and \<open>/an/\<close> exactly one welded tile with text \<open>an\<close>. The
  override wins over the automatic cascade: on its own \<open>a\<close> is a vowel tile.
\<close>

theorem override_precedence:
  "parseWordToTiles ''{a}'' = Inr [\<lparr>tileText = ''a'', tileType = Consonant\<rparr>]
   \<and> parseWordToTiles ''[a]'' = Inr [\<lparr>tileText = ''a'', tileType = Vowel\<rparr>]
   \<and> parseWordToTiles ''/an/'' = Inr [\<lparr>tileText = ''an'', tileType = Welded\<rparr>]
   \<and> parseWordToTiles ''a'' = Inr [\<lparr>tileText = ''a'', tileType = Vowel\<rparr>]"
  by code_simp

text \<open>
  Claim C3. \<open>parseWordToTiles\<close> is total: for every string the loop ends, no step
  throws (the result is \<open>Inr\<close>), and it ends with nothing left of the input. The tiles
  account for the whole string: the string is cut into non-empty parts, one for each
  tile in order, and each part is what its tile contributes, or its tile's text between
  an opening delimiter and its closing delimiter. So there is at most one tile per
  character. The empty string gives no tile.
\<close>

theorem parseWordToTiles_total:
  "(\<exists>tiles segs. parseLoop word [] = Inr (tiles, []) \<and> parseWordToTiles word = Inr tiles
       \<and> concat segs = word \<and> list_all2 accountsFor segs tiles
       \<and> length tiles \<le> length word)
   \<and> parseWordToTiles [] = Inr []"
proof -
  from parseLoop_account [of word "[]"] obtain ts segs where
    ts: "parseLoop word [] = Inr (ts, [])" "concat segs = word" "list_all2 accountsFor segs ts"
    by auto
  from parseLoop_result [of word "[]"] ts(1) have "length ts \<le> length word" by simp
  with ts show ?thesis by (auto simp: parseWordToTiles_def)
qed

text \<open>
  Claim C7 as stated fails: on \<open>//\<close> the search from index 1 finds the second slash at
  index 1, and the welded override emits a welded tile with empty text.
\<close>

theorem empty_welded_override:
  "parseWordToTiles ''//'' = Inr [\<lparr>tileText = [], tileType = Welded\<rparr>]"
  by code_simp

text \<open>
  Claim C7, as amended. When \<open>remaining\<close> starts with a slash and the step of the loop
  emits a welded tile, the tile comes from the \<open>/.../\<close> override: its text is what stands
  between the opening slash and the next slash (the search starts at index 1, after
  the opening slash), it contains no slash, and it is empty exactly when \<open>remaining\<close>
  starts with \<open>//\<close>.
\<close>

theorem welded_override_text:
  assumes "startsWith remaining ''/''" and "parseStep remaining = Inr (t, r')"
    and "tileType t = Welded"
  shows "remaining = ''/'' @ tileText t @ ''/'' @ r' \<and> CHR ''/'' \<notin> set (tileText t)
     \<and> (tileText t = [] \<longleftrightarrow> startsWith remaining ''//'')"
proof -
  from assms(1) obtain rest where r: "remaining = CHR ''/'' # rest"
    by (cases remaining) (auto simp: startsWith_def)
  have low: "lowerChar (CHR ''/'') = CHR ''/''" by (simp add: lowerChar_def)
  have no_auto: "autoMatch remaining table ty = None"
    if "\<forall>p \<in> set table. p \<noteq> [] \<and> hd p \<noteq> CHR ''/''" for table ty
  proof -
    have "\<not> startsWith (toLowerCase remaining) p" if "p \<in> set table" for p
    proof -
      from that \<open>\<forall>p \<in> set table. p \<noteq> [] \<and> hd p \<noteq> CHR ''/''\<close>
      have "p \<noteq> [] \<and> hd p \<noteq> CHR ''/''" by blast
      then obtain c cs where "p = c # cs" "c \<noteq> CHR ''/''" by (cases p) auto
      then show ?thesis by (simp add: startsWith_def toLowerCase_def r low)
    qed
    then have "find (\<lambda>p. startsWith (toLowerCase remaining) p) table = None"
      by (simp add: find_None_iff)
    then show ?thesis by (simp add: autoMatch_def)
  qed
  have early: "\<not> startsWith remaining '' ''" "syllableMatch remaining = None"
    "override remaining ''<'' (CHR ''>'') 0 Suffix = None" "suffixMatch remaining = None"
    "prefixMatch remaining = None" "override remaining ''['' (CHR '']'') 0 Vowel = None"
    "override remaining ''{'' (CHR ''}'') 0 Consonant = None"
    by (simp_all add: r startsWith_def syllableMatch_def override_def suffixMatch_def
        prefixMatch_def isAlnum_def)
  have "override remaining ''/'' (CHR ''/'') 1 Welded = Some (t, r')"
  proof (cases "override remaining ''/'' (CHR ''/'') 1 Welded")
    case (Some x)
    with assms(2) early show ?thesis by (simp add: parseStep_def)
  next
    case None
    have "autoMatch remaining weldedSounds Welded = None"
      "autoMatch remaining vowelTeams VowelTeam = None"
      "autoMatch remaining rControlled RControl = None"
      "autoMatch remaining digraphs Digraph = None"
      by (rule no_auto, simp add: weldedSounds_def vowelTeams_def rControlled_def digraphs_def)+
    with None early assms(2) have "singleLetter remaining = Inr (t, r')"
      by (simp add: parseStep_def)
    with assms(3) r show ?thesis
      by (auto simp: singleLetter_def split: if_splits)
  qed
  from override_shape [OF this]
  have shape: "remaining = CHR ''/'' # tileText t @ CHR ''/'' # r'"
    and notin: "CHR ''/'' \<notin> set (tileText t)"
    by simp_all
  have "tileText t = [] \<longleftrightarrow> startsWith remaining ''//''"
  proof
    assume "tileText t = []"
    with shape show "startsWith remaining ''//''" by (simp add: startsWith_def)
  next
    assume "startsWith remaining ''//''"
    with shape notin show "tileText t = []"
      by (cases "tileText t") (auto simp: startsWith_def)
  qed
  with shape notin show ?thesis by simp
qed

text \<open>The theorem of C7 at \<open>/an/d\<close>.\<close>

theorem welded_override_text_witness:
  "startsWith ''/an/d'' ''/'' \<and> parseStep ''/an/d'' = Inr (\<lparr>tileText = ''an'', tileType = Welded\<rparr>, ''d'')
   \<and> ''/an/d'' = ''/'' @ ''an'' @ ''/'' @ ''d'' \<and> CHR ''/'' \<notin> set ''an''"
proof -
  have a: "startsWith ''/an/d'' ''/''" by code_simp
  have b: "parseStep ''/an/d'' = Inr (\<lparr>tileText = ''an'', tileType = Welded\<rparr>, ''d'')" by code_simp
  from welded_override_text [OF a b] a b show ?thesis by simp
qed


section \<open>The lesson text importer\<close>

subsection \<open>More of JavaScript's strings and regular expressions\<close>

abbreviation nl :: char where "nl \<equiv> CHR 0x0A"
abbreviation tab :: char where "tab \<equiv> CHR 0x09"
abbreviation dq :: char where "dq \<equiv> CHR 0x22"

text \<open>White space, for \<open>trim\<close> and for \<open>\s\<close>: tab, line feed, vertical tab, form feed,
  carriage return, space and the no-break space. A line terminator (what \<open>.\<close> does not
  match) is a line feed or a carriage return.\<close>

definition isSpace :: "char \<Rightarrow> bool" where
  "isSpace c = ((of_char c :: nat) \<in> set [9, 10, 11, 12, 13, 32, 160])"

definition isLineTerminator :: "char \<Rightarrow> bool" where
  "isLineTerminator c = ((of_char c :: nat) \<in> set [10, 13])"

definition isDigit :: "char \<Rightarrow> bool" where
  "isDigit c = (let n = (of_char c :: nat) in 48 \<le> n \<and> n \<le> 57)"

text \<open>The class \<open>\w\<close>.\<close>

definition isWordChar :: "char \<Rightarrow> bool" where
  "isWordChar c = (isAlnum c \<or> c = CHR ''_'')"

definition trim :: "string \<Rightarrow> string" where
  "trim s = rev (dropWhile isSpace (rev (dropWhile isSpace s)))"

text \<open>\<open>s.split(sep)\<close> for a separator that is one character, or a regular expression
  for one character of a class: \<open>split('\n')\<close>, \<open>split(/:/)\<close>, \<open>split(/,|\n/)\<close>. The
  result is never empty.\<close>

fun splitWhere :: "(char \<Rightarrow> bool) \<Rightarrow> string \<Rightarrow> string list" where
  "splitWhere sep [] = [[]]"
| "splitWhere sep (c # cs) =
     (if sep c then [] # splitWhere sep cs
      else (case splitWhere sep cs of [] \<Rightarrow> [[c]] | x # xs \<Rightarrow> (c # x) # xs))"

definition splitOn :: "char \<Rightarrow> string \<Rightarrow> string list" where
  "splitOn sep s = splitWhere (\<lambda>c. c = sep) s"

text \<open>\<open>s.split(re)\<close> for a regular expression without groups that matches no empty
  string and looks at nothing before its match: \<open>matchLen\<close> gives the length of the match
  of \<open>re\<close> at the start of a string, 0 when there is none.\<close>

function splitRegex :: "(string \<Rightarrow> nat) \<Rightarrow> string \<Rightarrow> string list" where
  "splitRegex matchLen [] = [[]]"
| "splitRegex matchLen (c # cs) =
     (if matchLen (c # cs) > 0 then [] # splitRegex matchLen (drop (matchLen (c # cs)) (c # cs))
      else (case splitRegex matchLen cs of [] \<Rightarrow> [[c]] | x # xs \<Rightarrow> (c # x) # xs))"
  by pat_completeness auto
termination
  by (relation "measure (\<lambda>(matchLen, s). length s)") auto

text \<open>The separator of \<open>extractList\<close>, \<open>/,|;|\t|\s{2,}/\<close>: the alternatives are tried in
  order, and the last one takes the whole run of white space.\<close>

definition listSeparator :: "string \<Rightarrow> nat" where
  "listSeparator s =
     (case s of
        [] \<Rightarrow> 0
      | c # _ \<Rightarrow>
          if c = CHR '','' \<or> c = CHR '';'' \<or> c = tab then 1
          else (let n = length (takeWhile isSpace s) in if n \<ge> 2 then n else 0))"

text \<open>\<open>str.split(/:(.+)/)[1] || ''\<close>: group 1 of the first match, that is what follows
  the first colon that has a character other than a line terminator after it, up to the
  next line terminator; the empty string when there is no such colon.\<close>

fun afterColon :: "string \<Rightarrow> string" where
  "afterColon [] = []"
| "afterColon (c # cs) =
     (if c = CHR '':'' \<and> (case cs of [] \<Rightarrow> False | d # _ \<Rightarrow> \<not> isLineTerminator d)
      then takeWhile (\<lambda>d. \<not> isLineTerminator d) cs
      else afterColon cs)"

text \<open>\<open>line.split(/:/)[1]\<close> under the guard \<open>content && content.trim()\<close>: the field
  between the first and the second colon, when it is there and not blank.\<close>

definition headerContent :: "string \<Rightarrow> string option" where
  "headerContent line =
     (case splitOn (CHR '':'') line of
        _ # content # _ \<Rightarrow> if content \<noteq> [] \<and> trim content \<noteq> [] then Some content else None
      | _ \<Rightarrow> None)"

text \<open>\<open>str.replace(/^\d+[\.)]\s*/, '')\<close>.\<close>

definition stripNumbering :: "string \<Rightarrow> string" where
  "stripNumbering str =
     (let digits = takeWhile isDigit str
      in if digits = [] then str
         else (case drop (length digits) str of
                 [] \<Rightarrow> str
               | c # rest \<Rightarrow>
                   if c = CHR ''.'' \<or> c = CHR '')'' then dropWhile isSpace rest else str))"

text \<open>A search for a regular expression: the matcher is tried at every position, from
  the left, and sees the character before the position (for \<open>\b\<close>).\<close>

fun regexSearch :: "(char option \<Rightarrow> string \<Rightarrow> 'a option) \<Rightarrow> char option \<Rightarrow> string \<Rightarrow> 'a option" where
  "regexSearch m prev [] = m prev []"
| "regexSearch m prev (c # cs) =
     (case m prev (c # cs) of Some r \<Rightarrow> Some r | None \<Rightarrow> regexSearch m (Some c) cs)"

text \<open>\<open>\b\<close> between the character \<open>prev\<close> and the string \<open>s\<close>.\<close>

definition wordBoundary :: "char option \<Rightarrow> string \<Rightarrow> bool" where
  "wordBoundary prev s =
     ((case prev of None \<Rightarrow> False | Some c \<Rightarrow> isWordChar c)
      \<noteq> (case s of [] \<Rightarrow> False | c # _ \<Rightarrow> isWordChar c))"

text \<open>\<open>(\d+)\.(\d+)\b\<close> at the start of a string: both runs of digits are the longest
  ones (a shorter first run is not followed by a dot, a shorter second run is followed
  by a digit, where \<open>\b\<close> fails).\<close>

definition numberDotNumber :: "string \<Rightarrow> (string \<times> string) option" where
  "numberDotNumber s =
     (let d1 = takeWhile isDigit s
      in if d1 = [] then None
         else (case drop (length d1) s of
                 [] \<Rightarrow> None
               | c # r2 \<Rightarrow>
                   if c \<noteq> CHR ''.'' then None
                   else (let d2 = takeWhile isDigit r2
                         in if d2 = [] then None
                            else if (case drop (length d2) r2 of
                                       [] \<Rightarrow> True | c3 # _ \<Rightarrow> \<not> isWordChar c3)
                            then Some (d1, d2) else None)))"

text \<open>\<open>/\bStep\s*(\d+)\.(\d+)\b/i\<close> and \<open>/\b(\d+)\.(\d+)\b/\<close> at one position.\<close>

definition stepPattern :: "char option \<Rightarrow> string \<Rightarrow> (string \<times> string) option" where
  "stepPattern prev s =
     (if wordBoundary prev s \<and> toLowerCase (take 4 s) = ''step''
      then numberDotNumber (dropWhile isSpace (drop 4 s)) else None)"

definition barePattern :: "char option \<Rightarrow> string \<Rightarrow> (string \<times> string) option" where
  "barePattern prev s = (if wordBoundary prev s then numberDotNumber s else None)"

subsection \<open>The lesson record\<close>

datatype CardType = Regular | Nonsense | Hfw

record WordCard =
  cardId :: string
  cardText :: string
  cardType :: CardType

record DictationSection =
  sounds :: "string list"
  realWords :: "string list"
  wordElements :: "string list"
  nonsenseWords :: "string list"
  phrases :: "string list"
  dictSentences :: "string list"

text \<open>\<open>Partial<Lesson>\<close>, with the fields the importer sets. \<open>None\<close> is a field that is
  not set.\<close>

record Lesson =
  step :: "string option"
  substep :: "string option"
  quickDrill :: "string list"
  hfwList :: "string list"
  wordCards :: "WordCard list"
  sentences :: "string list"
  passage :: "string option"
  dictation :: DictationSection

definition emptyDictation :: DictationSection where
  "emptyDictation =
     \<lparr>sounds = [], realWords = [], wordElements = [], nonsenseWords = [], phrases = [],
      dictSentences = []\<rparr>"

text \<open>The initial value of \<open>extracted\<close>.\<close>

definition emptyLesson :: Lesson where
  "emptyLesson =
     \<lparr>step = None, substep = None, quickDrill = [], hfwList = [], wordCards = [],
      sentences = [], passage = None, dictation = emptyDictation\<rparr>"

subsection \<open>Identifiers\<close>

text \<open>\<open>generateId\<close> reads \<open>Math.random()\<close>. The model takes the identifiers the
  successive calls will return as an argument, and hands back the ones not used.\<close>

type_synonym idSource = "nat \<Rightarrow> string"

definition generateId :: "idSource \<Rightarrow> string \<times> idSource" where
  "generateId src = (src 0, \<lambda>n. src (Suc n))"

text \<open>\<open>words.map(w => ({ id: generateId(), text: w, type: 'regular' }))\<close>.\<close>

fun makeCards :: "idSource \<Rightarrow> string list \<Rightarrow> WordCard list \<times> idSource" where
  "makeCards src [] = ([], src)"
| "makeCards src (w # ws) =
     (case generateId src of
        (i, src') \<Rightarrow>
          (case makeCards src' ws of
             (cards, src'') \<Rightarrow> (\<lparr>cardId = i, cardText = w, cardType = Regular\<rparr> # cards, src'')))"

subsection \<open>The CSV path\<close>

text \<open>The state of the loop of \<open>parseCSVLine\<close>: the characters not read yet, \<open>result\<close>,
  \<open>current\<close> and \<open>inQuotes\<close>.\<close>

fun csvScan :: "string \<Rightarrow> string list \<Rightarrow> string \<Rightarrow> bool \<Rightarrow> string list" where
  "csvScan [] result current inQuotes = result @ [current]"
| "csvScan (char # rest) result current inQuotes =
     (if char = dq then
        (case rest of
           [] \<Rightarrow> csvScan rest result current (\<not> inQuotes)
         | next # rest' \<Rightarrow>
             if inQuotes \<and> next = dq then csvScan rest' result (current @ [dq]) inQuotes
             else csvScan rest result current (\<not> inQuotes))
      else if char = CHR '','' \<and> \<not> inQuotes then csvScan rest (result @ [current]) [] inQuotes
      else csvScan rest result (current @ [char]) inQuotes)"

text \<open>\<open>s.replace(/^"|"$/g, '')\<close>: a quote at the start goes, and a quote at the end of
  what is left.\<close>

definition stripQuotes :: "string \<Rightarrow> string" where
  "stripQuotes s =
     (let s1 = (case s of [] \<Rightarrow> [] | c # cs \<Rightarrow> if c = dq then cs else s)
      in if s1 \<noteq> [] \<and> last s1 = dq then butlast s1 else s1)"

definition parseCSVLine :: "string \<Rightarrow> string list" where
  "parseCSVLine line = map (\<lambda>s. trim (stripQuotes (trim s))) (csvScan line [] [] False)"

text \<open>\<open>indices\<close>: the header names, lower-cased and trimmed, with their column, as an
  association list read with \<open>map_of\<close>. A later column of the same name replaces an
  earlier one, so the list is in reverse order of the columns.\<close>

type_synonym indices = "(string \<times> nat) list"

definition headerIndices :: "string list \<Rightarrow> indices" where
  "headerIndices headerRow =
     rev (zip (map (\<lambda>h. trim (toLowerCase h)) headerRow) [0 ..< length headerRow])"

text \<open>\<open>row[i]\<close>: \<open>undefined\<close> beyond the end of the row.\<close>

definition at :: "'a list \<Rightarrow> nat \<Rightarrow> 'a option" where
  "at row i = (if i < length row then Some (row ! i) else None)"

text \<open>\<open>targetStep && targetSubstep ? `${targetStep}.${targetSubstep}` : null\<close>: an
  argument left out and the empty string are both falsy.\<close>

definition targetIdentifier :: "string option \<Rightarrow> string option \<Rightarrow> string option" where
  "targetIdentifier targetStep targetSubstep =
     (case (targetStep, targetSubstep) of
        (Some a, Some b) \<Rightarrow> if a \<noteq> [] \<and> b \<noteq> [] then Some (a @ ''.'' @ b) else None
      | _ \<Rightarrow> None)"

text \<open>The search for the data row, over the lines after the first. \<open>colLessonPlan\<close> is
  \<open>undefined\<close> when the row is shorter than the header, and then
  \<open>colLessonPlan.startsWith\<close> throws.\<close>

fun findDataRow :: "indices \<Rightarrow> string option \<Rightarrow> string list \<Rightarrow> error + string list option" where
  "findDataRow indices target [] = Inr None"
| "findDataRow indices target (l # ls) =
     (let row = parseCSVLine l
      in if length row < 2 then findDataRow indices target ls
         else
           (let col0 = map_option trim (at row 0);
                colLessonPlan =
                  (case map_of indices ''lesson plan'' of
                     Some i \<Rightarrow> map_option trim (at row i)
                   | None \<Rightarrow> Some [])
            in case target of
                 Some tid \<Rightarrow>
                   if col0 = Some tid then Inr (Some row)
                   else (case colLessonPlan of
                           None \<Rightarrow> Inl TypeError
                         | Some c \<Rightarrow>
                             if startsWith c tid then Inr (Some row)
                             else findDataRow indices target ls)
               | None \<Rightarrow>
                   if (case col0 of Some c \<Rightarrow> c \<noteq> [] | None \<Rightarrow> False)
                      \<or> (case colLessonPlan of Some c \<Rightarrow> c \<noteq> [] | None \<Rightarrow> False)
                   then Inr (Some row)
                   else findDataRow indices target ls))"

text \<open>The CSV detector: \<open>lines\<close>, \<open>firstLine\<close> and \<open>isCSV\<close>. \<open>lines[0].trim()\<close> would
  throw on an empty array.\<close>

definition isCSV :: "string \<Rightarrow> error + bool" where
  "isCSV text =
     (let lines = splitOn nl text
      in case lines of
           [] \<Rightarrow> Inl TypeError
         | l0 # _ \<Rightarrow>
             (let firstLine = trim l0
              in Inr (startsWith firstLine '',,''
                      \<or> (includesStr firstLine '','' \<and> length lines > 2))))"

text \<open>The first part of the CSV branch: \<open>indices\<close> and \<open>dataRow\<close>, when the detector
  fires and a data row is found; \<open>None\<close> when the function goes on to the standard text
  parser.\<close>

definition csvDataRow ::
  "string \<Rightarrow> string option \<Rightarrow> string option \<Rightarrow> error + (indices \<times> string list) option" where
  "csvDataRow text targetStep targetSubstep =
     (case isCSV text of
        Inl e \<Rightarrow> Inl e
      | Inr False \<Rightarrow> Inr None
      | Inr True \<Rightarrow>
          (case splitOn nl text of
             [] \<Rightarrow> Inl TypeError
           | l0 # rest \<Rightarrow>
               (let firstLine = trim l0;
                    headerRow = parseCSVLine firstLine;
                    indices = headerIndices headerRow
                in case findDataRow indices (targetIdentifier targetStep targetSubstep) rest of
                     Inl e \<Rightarrow> Inl e
                   | Inr None \<Rightarrow> Inr None
                   | Inr (Some dataRow) \<Rightarrow> Inr (Some (indices, dataRow)))))"

text \<open>\<open>getCol\<close>: the first of the headers that is a column with a non-empty cell in the
  data row.\<close>

fun getCol :: "indices \<Rightarrow> string list \<Rightarrow> string list \<Rightarrow> string" where
  "getCol indices dataRow [] = []"
| "getCol indices dataRow (h # hs) =
     (case map_of indices (toLowerCase h) of
        None \<Rightarrow> getCol indices dataRow hs
      | Some idx \<Rightarrow>
          (case at dataRow idx of
             None \<Rightarrow> getCol indices dataRow hs
           | Some cell \<Rightarrow> if cell \<noteq> [] then cell else getCol indices dataRow hs))"

definition getList :: "indices \<Rightarrow> string list \<Rightarrow> string list \<Rightarrow> string list" where
  "getList indices dataRow possibleHeaders =
     (let raw = getCol indices dataRow possibleHeaders
      in if raw \<noteq> []
         then filter (\<lambda>s. s \<noteq> [])
                (map trim (splitWhere (\<lambda>c. c = CHR '','' \<or> c = nl) raw))
         else [])"

text \<open>The fields of the CSV branch up to the dictation cell.\<close>

definition csvFields :: "idSource \<Rightarrow> indices \<Rightarrow> string list \<Rightarrow> Lesson \<times> idSource" where
  "csvFields src indices dataRow =
     (let vocab1 = getList indices dataRow [''new vocab words''];
          vocab2 = getList indices dataRow [''vocab from sentences''];
          vocab3 = getList indices dataRow [''vocab from connected text''];
          allVocab = vocab1 @ vocab2 @ vocab3;
          rawSentences = getCol indices dataRow [''sentences'', ''reading sentences'']
      in case makeCards src allVocab of
           (cards, src') \<Rightarrow>
             (emptyLesson
                \<lparr>hfwList := getList indices dataRow [''new sight words'', ''sight words''],
                 quickDrill :=
                   getList indices dataRow [''new sound cards'', ''pa drill'', ''spelling sounds''],
                 wordCards := cards,
                 sentences :=
                   (if rawSentences \<noteq> []
                    then filter (\<lambda>s. length s > 5) (map trim (splitOn nl rawSentences))
                    else []),
                 passage := Some (getCol indices dataRow [''connected text'', ''reader''])\<rparr>,
              src'))"

text \<open>The end of the CSV branch: \<open>step\<close> and \<open>substep\<close> from the targets, when they are
  given and not empty.\<close>

definition falsy :: "string option \<Rightarrow> bool" where
  "falsy v = (case v of None \<Rightarrow> True | Some s \<Rightarrow> s = [])"

definition withTargets :: "Lesson \<Rightarrow> string option \<Rightarrow> string option \<Rightarrow> Lesson" where
  "withTargets extracted targetStep targetSubstep =
     (let e1 = (if falsy (step extracted) \<and> \<not> falsy targetStep
                then extracted\<lparr>step := targetStep\<rparr> else extracted)
      in if falsy (substep e1) \<and> \<not> falsy targetSubstep
         then e1\<lparr>substep := targetSubstep\<rparr> else e1)"

subsection \<open>The standard text parser\<close>

text \<open>\<open>cleanLine\<close>: the line trimmed, without a leading bullet (\<open>-\<close> or \<open>*\<close> and the
  white space after it; the two other bullets of the source are not Latin-1), without
  square brackets, with a space for every tab.\<close>

definition stripBullet :: "string \<Rightarrow> string" where
  "stripBullet s =
     (case s of
        [] \<Rightarrow> []
      | c # rest \<Rightarrow>
          if (c = CHR ''-'' \<or> c = CHR ''*'') \<and> takeWhile isSpace rest \<noteq> []
          then dropWhile isSpace rest else s)"

definition cleanLine :: "string \<Rightarrow> string" where
  "cleanLine l =
     map (\<lambda>c. if c = tab then CHR '' '' else c)
       (filter (\<lambda>c. c \<noteq> CHR ''['' \<and> c \<noteq> CHR '']'') (stripBullet (trim l)))"

definition extractList :: "string \<Rightarrow> string list" where
  "extractList str =
     (let str1 = (if includesStr str '':'' then afterColon str else str);
          str2 = stripNumbering str1;
          candidates = splitRegex listSeparator str2
      in filter (\<lambda>s. length s > 0 \<and> \<not> includesStr (toLowerCase s) ''word count'')
           (map trim candidates))"

datatype Section =
  S_none | S_quickDrill | S_hfw | S_wordCards | S_sentences | S_dictation | S_passage

datatype SubMode =
  M_none | M_sounds | M_real | M_elements | M_nonsense | M_phrases | M_sentences

text \<open>The variables of the loop over \<open>rawLines\<close>, with the identifiers not used yet.\<close>

record ParserState =
  extracted :: Lesson
  currentSection :: Section
  dictationSubMode :: SubMode
  ids :: idSource

text \<open>The sub-mode of a line of the dictation section: the explicit headers, on the
  cleaned line in lower case, and then the numeric headers, on the raw line, when the
  explicit ones left the sub-mode as it was.\<close>

definition detectSubMode :: "SubMode \<Rightarrow> string \<Rightarrow> string \<Rightarrow> SubMode" where
  "detectSubMode subMode lower rawLine =
     (let detectedSubMode =
        (if startsWith lower ''sound'' \<or> includesStr lower ''sounds:'' \<or> includesStr lower ''sounds''
         then M_sounds
         else if startsWith lower ''real'' \<or> includesStr lower ''real words:''
                 \<or> includesStr lower ''words''
         then M_real
         else if startsWith lower ''element'' \<or> includesStr lower ''word elements:''
                 \<or> includesStr lower ''welded''
         then M_elements
         else if startsWith lower ''nonsense'' \<or> includesStr lower ''nonsense words:''
         then M_nonsense
         else if startsWith lower ''phrase'' \<or> includesStr lower ''phrases:'' then M_phrases
         else if startsWith lower ''sentence'' \<or> includesStr lower ''sentences:''
         then M_sentences
         else subMode)
      in if detectedSubMode = subMode then
           (if startsWith rawLine ''1.'' \<or> startsWith rawLine ''1)'' then M_sounds
            else if startsWith rawLine ''2.'' \<or> startsWith rawLine ''2)'' then M_real
            else if startsWith rawLine ''3.'' \<or> startsWith rawLine ''3)'' then M_elements
            else if startsWith rawLine ''4.'' \<or> startsWith rawLine ''4)'' then M_nonsense
            else if startsWith rawLine ''5.'' \<or> startsWith rawLine ''5)'' then M_phrases
            else if startsWith rawLine ''6.'' \<or> startsWith rawLine ''6)'' then M_sentences
            else detectedSubMode)
         else detectedSubMode)"

text \<open>What a line of the dictation section adds to \<open>extracted.dictation\<close>, in the
  sub-mode found for it.\<close>

definition dictationContent :: "SubMode \<Rightarrow> string \<Rightarrow> DictationSection \<Rightarrow> DictationSection" where
  "dictationContent subMode line d =
     (let contentToProcess =
            (if includesStr line '':'' then afterColon line else stripNumbering line)
      in if contentToProcess \<noteq> [] \<and> trim contentToProcess \<noteq> [] then
           (let items = extractList contentToProcess
            in case subMode of
                 M_sounds \<Rightarrow> d\<lparr>sounds := sounds d @ items\<rparr>
               | M_real \<Rightarrow> d\<lparr>realWords := realWords d @ items\<rparr>
               | M_nonsense \<Rightarrow> d\<lparr>nonsenseWords := nonsenseWords d @ items\<rparr>
               | M_elements \<Rightarrow> d\<lparr>wordElements := wordElements d @ items\<rparr>
               | M_phrases \<Rightarrow> d\<lparr>phrases := phrases d @ items\<rparr>
               | M_sentences \<Rightarrow>
                   (let cleanSentence = stripNumbering (trim contentToProcess)
                    in if length cleanSentence > 5
                          \<and> \<not> includesStr (toLowerCase cleanSentence) ''sentences''
                       then d\<lparr>dictSentences := dictSentences d @ [cleanSentence]\<rparr>
                       else d)
               | M_none \<Rightarrow> d)
         else d)"

text \<open>The part of the loop body after the section headers: the content of a line, by
  the current section.\<close>

definition sectionContent :: "ParserState \<Rightarrow> string \<Rightarrow> string \<Rightarrow> ParserState" where
  "sectionContent st rawLine line =
     (let ex = extracted st; lower = toLowerCase line
      in case currentSection st of
           S_quickDrill \<Rightarrow>
             if \<not> includesStr line '':'' \<and> \<not> includesStr (toLowerCase line) ''part''
             then st\<lparr>extracted := ex\<lparr>quickDrill := quickDrill ex @ extractList line\<rparr>\<rparr>
             else st
         | S_hfw \<Rightarrow>
             if \<not> includesStr line '':''
             then st\<lparr>extracted := ex\<lparr>hfwList := hfwList ex @ extractList line\<rparr>\<rparr>
             else st
         | S_wordCards \<Rightarrow>
             if \<not> includesStr line '':'' then
               (case makeCards (ids st) (extractList line) of
                  (newCards, src') \<Rightarrow>
                    st\<lparr>extracted := ex\<lparr>wordCards := wordCards ex @ newCards\<rparr>, ids := src'\<rparr>)
             else st
         | S_sentences \<Rightarrow>
             if length line > 5 \<and> includesStr line '' '' \<and> \<not> includesStr lower ''part 6''
             then st\<lparr>extracted := ex\<lparr>sentences := sentences ex @ [line]\<rparr>\<rparr>
             else st
         | S_passage \<Rightarrow>
             st\<lparr>extracted :=
                  ex\<lparr>passage :=
                       Some ((case passage ex of None \<Rightarrow> [] | Some p \<Rightarrow> p) @ line @ [nl, nl])\<rparr>\<rparr>
         | S_dictation \<Rightarrow>
             (let mode = detectSubMode (dictationSubMode st) lower rawLine
              in st\<lparr>dictationSubMode := mode,
                    extracted := ex\<lparr>dictation := dictationContent mode line (dictation ex)\<rparr>\<rparr>)
         | S_none \<Rightarrow> st)"

text \<open>The body of the loop over \<open>rawLines\<close>: the section headers, each ending the
  iteration with \<open>continue\<close>, then the content.\<close>

definition processLine :: "ParserState \<Rightarrow> string \<Rightarrow> ParserState" where
  "processLine st rawLine =
     (let line = cleanLine rawLine; lower = toLowerCase line; ex = extracted st
      in if includesStr lower ''quick drill'' \<or> includesStr lower ''visual drill''
            \<or> includesStr lower ''part 1''
         then
           (case headerContent line of
              Some content \<Rightarrow>
                st\<lparr>currentSection := S_quickDrill,
                   extracted := ex\<lparr>quickDrill := quickDrill ex @ extractList content\<rparr>\<rparr>
            | None \<Rightarrow> st\<lparr>currentSection := S_quickDrill\<rparr>)
         else if includesStr lower ''word cards'' \<or> includesStr lower ''word list''
            \<or> includesStr lower ''part 3'' \<or> includesStr lower ''words for reading''
         then
           (case headerContent line of
              Some content \<Rightarrow>
                (case makeCards (ids st) (extractList content) of
                   (newCards, src') \<Rightarrow>
                     st\<lparr>currentSection := S_wordCards,
                        extracted := ex\<lparr>wordCards := wordCards ex @ newCards\<rparr>,
                        ids := src'\<rparr>)
            | None \<Rightarrow> st\<lparr>currentSection := S_wordCards\<rparr>)
         else if includesStr lower ''sight words'' \<or> includesStr lower ''hfw''
            \<or> includesStr lower ''high frequency''
         then
           (case headerContent line of
              Some content \<Rightarrow>
                st\<lparr>currentSection := S_hfw,
                   extracted := ex\<lparr>hfwList := hfwList ex @ extractList content\<rparr>\<rparr>
            | None \<Rightarrow> st\<lparr>currentSection := S_hfw\<rparr>)
         else if includesStr lower ''sentences for reading'' \<or> includesStr lower ''part 5''
            \<or> includesStr lower ''reading sentences''
         then st\<lparr>currentSection := S_sentences\<rparr>
         else if includesStr lower ''dictation'' \<or> includesStr lower ''part 8''
         then st\<lparr>currentSection := S_dictation, dictationSubMode := M_none\<rparr>
         else if includesStr lower ''passage'' \<or> includesStr lower ''story''
            \<or> includesStr lower ''part 9''
         then st\<lparr>currentSection := S_passage\<rparr>
         else sectionContent st rawLine line)"

text \<open>The standard text parser: \<open>stepMatch\<close>, \<open>rawLines\<close> and the loop.\<close>

definition standardTextParser :: "idSource \<Rightarrow> string \<Rightarrow> Lesson \<times> idSource" where
  "standardTextParser src text =
     (let stepMatch =
            (case regexSearch stepPattern None text of
               Some m \<Rightarrow> Some m
             | None \<Rightarrow> regexSearch barePattern None text);
          extracted0 =
            (case stepMatch of
               Some (m1, m2) \<Rightarrow> emptyLesson\<lparr>step := Some m1, substep := Some m2\<rparr>
             | None \<Rightarrow> emptyLesson);
          rawLines = filter (\<lambda>l. length l > 0) (map trim (splitOn nl text));
          st = foldl processLine
                 \<lparr>extracted = extracted0, currentSection = S_none, dictationSubMode = M_none,
                  ids = src\<rparr>
                 rawLines
      in (extracted st, ids st))"


subsection \<open>The data row comes from a line after the first\<close>

lemma splitWhere_not_Nil: "splitWhere sep s \<noteq> []"
  by (induction s) (auto split: list.splits)

lemma splitWhere_length_le: "l \<in> set (splitWhere sep s) \<Longrightarrow> length l \<le> length s"
proof (induction s arbitrary: l)
  case Nil
  then show ?case by simp
next
  case (Cons c cs)
  show ?case
  proof (cases "sep c")
    case True
    with Cons.prems have "l = [] \<or> l \<in> set (splitWhere sep cs)" by simp
    with Cons.IH show ?thesis by (auto simp: le_SucI)
  next
    case False
    obtain x xs where x: "splitWhere sep cs = x # xs"
      using splitWhere_not_Nil [of sep cs] by (cases "splitWhere sep cs") auto
    with False Cons.prems have "l = c # x \<or> l \<in> set xs" by simp
    with Cons.IH [of x] Cons.IH [of l] x show ?thesis by (auto simp: le_SucI)
  qed
qed

lemma splitWhere_tl_shorter: "l \<in> set (tl (splitWhere sep s)) \<Longrightarrow> length l < length s"
proof (induction s)
  case Nil
  then show ?case by simp
next
  case (Cons c cs)
  show ?case
  proof (cases "sep c")
    case True
    with Cons.prems have "l \<in> set (splitWhere sep cs)" by simp
    from splitWhere_length_le [OF this] show ?thesis by simp
  next
    case False
    obtain x xs where x: "splitWhere sep cs = x # xs"
      using splitWhere_not_Nil [of sep cs] by (cases "splitWhere sep cs") auto
    with False Cons.prems have "l \<in> set (tl (splitWhere sep cs))" by simp
    from Cons.IH [OF this] show ?thesis by simp
  qed
qed

lemma splitWhere_no_sep: "l \<in> set (splitWhere sep s) \<Longrightarrow> c \<in> set l \<Longrightarrow> \<not> sep c"
proof (induction s arbitrary: l)
  case Nil
  then show ?case by simp
next
  case (Cons d ds)
  show ?case
  proof (cases "sep d")
    case True
    with Cons.prems have "l \<in> set (splitWhere sep ds)" by auto
    with Cons.IH Cons.prems(2) show ?thesis by blast
  next
    case False
    obtain x xs where x: "splitWhere sep ds = x # xs"
      using splitWhere_not_Nil [of sep ds] by (cases "splitWhere sep ds") auto
    with False Cons.prems(1) have "l = d # x \<or> l \<in> set xs" by simp
    with Cons.IH [of x] Cons.IH [of l] x False Cons.prems(2) show ?thesis by auto
  qed
qed

lemma splitWhere_no_match: "\<forall>c \<in> set s. \<not> sep c \<Longrightarrow> splitWhere sep s = [s]"
  by (induction s) auto

lemma trim_subset: "set (trim s) \<subseteq> set s"
proof
  fix x
  assume "x \<in> set (trim s)"
  then have "x \<in> set (dropWhile isSpace (rev (dropWhile isSpace s)))"
    by (simp add: trim_def)
  then have "x \<in> set (rev (dropWhile isSpace s))" by (rule set_dropWhileD)
  then have "x \<in> set (dropWhile isSpace s)" by simp
  then show "x \<in> set s" by (rule set_dropWhileD)
qed

lemma trim_length: "length (trim s) \<le> length s"
proof -
  have "length (trim s) = length (dropWhile isSpace (rev (dropWhile isSpace s)))"
    by (simp add: trim_def)
  also have "\<dots> \<le> length (rev (dropWhile isSpace s))" by (rule length_dropWhile_le)
  also have "\<dots> \<le> length s" by (simp add: length_dropWhile_le)
  finally show ?thesis .
qed

lemma stripQuotes_subset: "set (stripQuotes s) \<subseteq> set s"
  by (cases s) (auto simp: stripQuotes_def Let_def dest: in_set_butlastD)

lemma stripQuotes_length: "length (stripQuotes s) \<le> length s"
  by (cases s) (auto simp: stripQuotes_def Let_def)

lemma csvScan_cells:
  "c \<in> set (csvScan rest result current inQuotes) \<Longrightarrow>
     c \<in> set result \<or> (length c \<le> length current + length rest \<and> set c \<subseteq> set current \<union> set rest)"
proof (induction rest result current inQuotes rule: csvScan.induct)
  case (1 result current inQuotes)
  then show ?case by auto
next
  case (2 char rest result current inQuotes)
  show ?case
  proof (cases "char = dq")
    case True
    show ?thesis
    proof (cases rest)
      case Nil
      with True "2.prems" "2.IH"(1) show ?thesis by auto
    next
      case (Cons nxt rest')
      show ?thesis
      proof (cases "inQuotes \<and> nxt = dq")
        case esc: True
        with True Cons "2.prems" have "c \<in> set (csvScan rest' result (current @ [dq]) inQuotes)"
          by simp
        from "2.IH"(2) [OF True Cons esc this] True Cons show ?thesis by auto
      next
        case noesc: False
        with True Cons "2.prems" have "c \<in> set (csvScan rest result current (\<not> inQuotes))"
          by auto
        from "2.IH"(3) [OF True Cons noesc this] show ?thesis by auto
      qed
    qed
  next
    case False
    show ?thesis
    proof (cases "char = CHR '','' \<and> \<not> inQuotes")
      case comma: True
      with False "2.prems" have "c \<in> set (csvScan rest (result @ [current]) [] inQuotes)"
        by simp
      from "2.IH"(4) [OF False comma this] show ?thesis by auto
    next
      case other: False
      with False "2.prems" have "c \<in> set (csvScan rest result (current @ [char]) inQuotes)"
        by auto
      from "2.IH"(5) [OF False other this] show ?thesis by auto
    qed
  qed
qed

lemma parseCSVLine_cells:
  assumes "c \<in> set (parseCSVLine l)"
  shows "length c \<le> length l \<and> set c \<subseteq> set l"
proof -
  from assms obtain s where s: "s \<in> set (csvScan l [] [] False)"
    and c: "c = trim (stripQuotes (trim s))"
    by (auto simp: parseCSVLine_def)
  from csvScan_cells [OF s] have "length s \<le> length l" "set s \<subseteq> set l" by simp_all
  moreover have "length c \<le> length s"
    unfolding c using trim_length stripQuotes_length le_trans by metis
  moreover have "set c \<subseteq> set s"
    unfolding c using trim_subset stripQuotes_subset subset_trans by metis
  ultimately show ?thesis by auto
qed

lemma findDataRow_row:
  "findDataRow indices target ls = Inr (Some row) \<Longrightarrow> \<exists>l \<in> set ls. row = parseCSVLine l"
proof (induction ls)
  case Nil
  then show ?case by simp
next
  case (Cons l ls)
  show ?case
  proof (cases "row = parseCSVLine l")
    case True
    then show ?thesis by simp
  next
    case False
    with Cons.prems have "findDataRow indices target ls = Inr (Some row)"
      by (auto simp: Let_def split: if_splits option.splits)
    with Cons.IH show ?thesis by auto
  qed
qed

lemma getCol_cell: "getCol indices dataRow hs \<noteq> [] \<Longrightarrow> getCol indices dataRow hs \<in> set dataRow"
  by (induction hs) (auto simp: at_def split: option.splits if_splits)

lemma csvDataRow_line:
  assumes "csvDataRow text targetStep targetSubstep = Inr (Some (indices, dataRow))"
  shows "\<exists>l \<in> set (tl (splitOn nl text)). dataRow = parseCSVLine l"
proof -
  from assms obtain l0 rest where lines: "splitOn nl text = l0 # rest"
    by (auto simp: csvDataRow_def split: sum.splits bool.splits list.splits)
  with assms obtain target ind where "findDataRow ind target rest = Inr (Some dataRow)"
    by (auto simp: csvDataRow_def Let_def split: sum.splits bool.splits option.splits)
  from findDataRow_row [OF this] lines show ?thesis by simp
qed

text \<open>The dictation cell, when there is one, is shorter than the text and has no line
  feed.\<close>

lemma dictation_cell:
  assumes "csvDataRow text targetStep targetSubstep = Inr (Some (indices, dataRow))"
    and "getCol indices dataRow hs \<noteq> []"
  shows "length (getCol indices dataRow hs) < length text \<and> nl \<notin> set (getCol indices dataRow hs)"
proof -
  from csvDataRow_line [OF assms(1)] obtain l where
    l: "l \<in> set (tl (splitOn nl text))" and row: "dataRow = parseCSVLine l"
    by blast
  from getCol_cell [OF assms(2)] row have "getCol indices dataRow hs \<in> set (parseCSVLine l)"
    by simp
  from parseCSVLine_cells [OF this]
  have le: "length (getCol indices dataRow hs) \<le> length l"
    and sub: "set (getCol indices dataRow hs) \<subseteq> set l"
    by simp_all
  from l have "length l < length text"
    unfolding splitOn_def by (rule splitWhere_tl_shorter)
  moreover from l have "l \<in> set (splitWhere (\<lambda>c. c = nl) text)"
    unfolding splitOn_def by (metis list.set_sel(2) tl_Nil empty_iff list.set(1))
  then have "nl \<notin> set l" using splitWhere_no_sep by fastforce
  ultimately show ?thesis using le sub by auto
qed

subsection \<open>The importer\<close>

function parseLessonText ::
  "idSource \<Rightarrow> string \<Rightarrow> string option \<Rightarrow> string option \<Rightarrow> error + (Lesson \<times> idSource)" where
  "parseLessonText src text targetStep targetSubstep =
     (case csvDataRow text targetStep targetSubstep of
        Inl e \<Rightarrow> Inl e
      | Inr None \<Rightarrow> Inr (standardTextParser src text)
      | Inr (Some (indices, dataRow)) \<Rightarrow>
          (case csvFields src indices dataRow of
             (extracted1, src1) \<Rightarrow>
               (let dictationText = getCol indices dataRow [''dictation'']
                in if dictationText \<noteq> [] then
                     (case parseLessonText src1 dictationText None None of
                        Inl e \<Rightarrow> Inl e
                      | Inr (dictationData, src2) \<Rightarrow>
                          Inr (withTargets (extracted1\<lparr>dictation := dictation dictationData\<rparr>)
                                 targetStep targetSubstep, src2))
                   else Inr (withTargets extracted1 targetStep targetSubstep, src1))))"
  by pat_completeness auto
termination
  by (relation "measure (\<lambda>(src, text, targetStep, targetSubstep). length text)")
     (auto simp del: getCol.simps simp: dictation_cell)


subsection \<open>Properties of the importer\<close>

declare parseLessonText.simps [simp del]

text \<open>An identifier source for examples: every call of \<open>generateId\<close> returns \<open>s\<close>.\<close>

definition constantIds :: "string \<Rightarrow> idSource" where
  "constantIds s = (\<lambda>n. s)"

text \<open>A text without a line feed is one line, so the CSV branch finds no data row in it
  and the call is the standard text parser.\<close>

lemma no_line_feed_no_row:
  assumes "nl \<notin> set text"
  shows "csvDataRow text targetStep targetSubstep = Inr None"
proof -
  from assms have "splitOn nl text = [text]"
    unfolding splitOn_def by (intro splitWhere_no_match) auto
  then show ?thesis
    by (simp add: csvDataRow_def isCSV_def Let_def split: bool.splits)
qed

lemma no_line_feed_standard:
  assumes "nl \<notin> set text"
  shows "parseLessonText src text targetStep targetSubstep = Inr (standardTextParser src text)"
  by (subst parseLessonText.simps) (simp add: no_line_feed_no_row [OF assms])

lemma no_row_standard:
  assumes "csvDataRow text targetStep targetSubstep = Inr None"
  shows "parseLessonText src text targetStep targetSubstep = Inr (standardTextParser src text)"
  by (subst parseLessonText.simps) (simp add: assms)

text \<open>The result of the CSV branch, with the nested call written as the standard text
  parser.\<close>

lemma csv_branch_result:
  assumes "csvDataRow text targetStep targetSubstep = Inr (Some (indices, dataRow))"
  shows "parseLessonText src text targetStep targetSubstep =
     (case csvFields src indices dataRow of
        (extracted1, src1) \<Rightarrow>
          (let dictationText = getCol indices dataRow [''dictation'']
           in if dictationText \<noteq> [] then
                (case standardTextParser src1 dictationText of
                   (dictationData, src2) \<Rightarrow>
                     Inr (withTargets (extracted1\<lparr>dictation := dictation dictationData\<rparr>)
                            targetStep targetSubstep, src2))
              else Inr (withTargets extracted1 targetStep targetSubstep, src1)))"
proof -
  have nested: "parseLessonText s (getCol indices dataRow [''dictation'']) None None
      = Inr (standardTextParser s (getCol indices dataRow [''dictation'']))"
    if "getCol indices dataRow [''dictation''] \<noteq> []" for s
    using dictation_cell [OF assms that] by (intro no_line_feed_standard) simp
  show ?thesis
    by (subst parseLessonText.simps)
      (auto simp add: assms Let_def nested simp del: getCol.simps split: prod.splits)
qed




text \<open>
  Claim C10. The function is defined by recursion on the length of the text: its only
  self-invocation, on the dictation cell, is on a string strictly shorter than the text,
  with no target step or substep. The cell comes from one line, so it has no line feed,
  and the nested call finds no data row: it is the standard text parser and does not
  call the importer again.
\<close>

theorem dictation_reparse_bounded:
  assumes "csvDataRow text targetStep targetSubstep = Inr (Some (indices, dataRow))"
    and "dictationText = getCol indices dataRow [''dictation'']"
    and "dictationText \<noteq> []"
  shows "length dictationText < length text
     \<and> csvDataRow dictationText None None = Inr None
     \<and> parseLessonText src dictationText None None = Inr (standardTextParser src dictationText)"
proof -
  from assms(2,3) have "getCol indices dataRow [''dictation''] \<noteq> []" by simp
  from dictation_cell [OF assms(1) this] assms(2)
  have "length dictationText < length text" and "nl \<notin> set dictationText" by simp_all
  then show ?thesis
    by (simp add: no_line_feed_no_row no_line_feed_standard)
qed

definition dictationCsv :: string where
  "dictationCsv = ''Lesson Plan,Dictation'' @ [nl] @ ''3.1,'' @ [dq] @ ''1. a, th'' @ [dq] @ [nl]"

text \<open>The theorem of C10 at a CSV text of three lines with a dictation cell.\<close>

theorem dictation_reparse_witness:
  "csvDataRow dictationCsv (Some ''3'') (Some ''1'')
     = Inr (Some ([(''dictation'', 1), (''lesson plan'', 0)], [''3.1'', ''1. a, th'']))
   \<and> getCol [(''dictation'', 1), (''lesson plan'', 0)] [''3.1'', ''1. a, th''] [''dictation'']
     = ''1. a, th''
   \<and> length ''1. a, th'' < length dictationCsv
   \<and> csvDataRow ''1. a, th'' None None = Inr None
   \<and> parseLessonText (constantIds ''id'') ''1. a, th'' None None
     = Inr (standardTextParser (constantIds ''id'') ''1. a, th'')"
proof -
  have a: "csvDataRow dictationCsv (Some ''3'') (Some ''1'')
     = Inr (Some ([(''dictation'', 1), (''lesson plan'', 0)], [''3.1'', ''1. a, th'']))"
    by code_simp
  have b: "''1. a, th''
     = getCol [(''dictation'', 1), (''lesson plan'', 0)] [''3.1'', ''1. a, th''] [''dictation'']"
    by code_simp
  have c: "''1. a, th'' \<noteq> []" by simp
  from dictation_reparse_bounded [OF a b c, of "constantIds ''id''"] a b show ?thesis
    by simp
qed

text \<open>A CSV text whose data row is shorter than its header.\<close>

definition shortRowCsv :: string where
  "shortRowCsv = ''Words,Sentences,Lesson Plan'' @ [nl] @ ''cat,The cat sat.'' @ [nl]"

text \<open>
  Claim C4 fails on the code. The header has a \<open>Lesson Plan\<close> column, the data row is
  shorter than the header, and both targets are given: \<open>colLessonPlan\<close> is \<open>undefined\<close>,
  the first column is not the target, and \<open>colLessonPlan.startsWith\<close> throws.
\<close>

theorem short_row_throws:
  "parseLessonText src shortRowCsv (Some ''3'') (Some ''1'') = Inl TypeError"
proof -
  have "csvDataRow shortRowCsv (Some ''3'') (Some ''1'') = Inl TypeError"
    by code_simp
  then show ?thesis
    by (subst parseLessonText.simps) simp
qed

subsection \<open>The CSV detector\<close>










subsection \<open>The CSV example\<close>

text \<open>The CSV document of two rows: the header \<open>Lesson Plan,New Sight Words,Sentences\<close>
  and the data row \<open>"3.1","full,pull","The cat sat. More text here."\<close>.\<close>

definition csvDoc :: string where
  "csvDoc = ''Lesson Plan,New Sight Words,Sentences'' @ [nl] @
     [dq] @ ''3.1'' @ [dq] @ '','' @ [dq] @ ''full,pull'' @ [dq] @ '','' @
     [dq] @ ''The cat sat. More text here.'' @ [dq]"

text \<open>
  Claim C6, as amended. The detector needs more than 2 lines when the header does not
  start with \<open>,,\<close>. For the document followed by a line feed, which makes a third line,
  \<open>parseLessonText\<close> with the targets \<open>3\<close> and \<open>1\<close> returns a record with \<open>hfwList\<close> equal
  to \<open>full\<close>, \<open>pull\<close> and with the sentence cell as the one entry of \<open>sentences\<close>.
\<close>

theorem csv_example_three_lines:
  "map_sum id (\<lambda>r. (hfwList (fst r), sentences (fst r)))
     (parseLessonText src (csvDoc @ [nl]) (Some ''3'') (Some ''1''))
   = Inr ([''full'', ''pull''], [''The cat sat. More text here.''])"
  by code_simp

text \<open>
  Claim C6 as stated fails: the document of two lines is not taken for CSV, the
  standard text parser reads it, takes its header for the sight-word header, and splits
  the data row at its commas, quotes included.
\<close>

theorem csv_example_two_lines:
  "isCSV csvDoc = Inr False
   \<and> map_sum id (\<lambda>r. (hfwList (fst r), sentences (fst r)))
       (parseLessonText (constantIds ''id'') csvDoc (Some ''3'') (Some ''1''))
     = Inr ([[dq] @ ''3.1'' @ [dq], [dq] @ ''full'', ''pull'' @ [dq],
             [dq] @ ''The cat sat. More text here.'' @ [dq]], [])"
  by code_simp

subsection \<open>Lines of the list sections\<close>

text \<open>The section-header keywords, as the specification lists them.\<close>

definition specSectionKeywords :: "string list" where
  "specSectionKeywords =
     [''quick drill'', ''visual drill'', ''part 1'',
      ''word cards'', ''word list'', ''part 3'', ''words for reading'',
      ''sight words'', ''hfw'', ''high frequency'',
      ''sentences for reading'', ''part 5'', ''reading sentences'',
      ''dictation'', ''part 8'',
      ''passage'', ''story'', ''part 9'']"

definition matchesSectionKeyword :: "string \<Rightarrow> bool" where
  "matchesSectionKeyword lower = list_ex (\<lambda>k. includesStr lower k) specSectionKeywords"

text \<open>
  Claim C8, as amended. Let a line, cleaned, match no section-header keyword and
  contain no colon. In the section \<open>hfw\<close> its items, from \<open>extractList\<close>, are appended to
  \<open>hfwList\<close>. In the section \<open>quickDrill\<close> they are appended to \<open>quickDrill\<close> when the line
  does not contain \<open>part\<close> (in any case); a line that contains \<open>part\<close> is skipped.
\<close>

theorem list_section_lines:
  assumes "\<not> matchesSectionKeyword (toLowerCase (cleanLine rawLine))"
    and "\<not> includesStr (cleanLine rawLine) '':''"
  shows "(currentSection st = S_hfw \<longrightarrow>
           processLine st rawLine =
             st\<lparr>extracted := (extracted st)
                  \<lparr>hfwList := hfwList (extracted st) @ extractList (cleanLine rawLine)\<rparr>\<rparr>)
     \<and> (currentSection st = S_quickDrill \<longrightarrow>
           processLine st rawLine =
             (if includesStr (toLowerCase (cleanLine rawLine)) ''part'' then st
              else st\<lparr>extracted := (extracted st)
                  \<lparr>quickDrill := quickDrill (extracted st) @ extractList (cleanLine rawLine)\<rparr>\<rparr>))"
proof -
  from assms(1) have "processLine st rawLine = sectionContent st rawLine (cleanLine rawLine)"
    by (simp add: matchesSectionKeyword_def specSectionKeywords_def processLine_def Let_def)
  with assms(2) show ?thesis
    by (simp add: sectionContent_def Let_def)
qed

text \<open>The theorem of C8 at the line \<open>the, was\<close> in the section \<open>hfw\<close>.\<close>

theorem list_section_lines_witness:
  "\<not> matchesSectionKeyword (toLowerCase (cleanLine ''the, was''))
   \<and> \<not> includesStr (cleanLine ''the, was'') '':''
   \<and> hfwList (extracted (processLine
        \<lparr>extracted = emptyLesson, currentSection = S_hfw, dictationSubMode = M_none,
         ids = constantIds ''id''\<rparr> ''the, was'')) = [''the'', ''was'']"
proof -
  have a: "\<not> matchesSectionKeyword (toLowerCase (cleanLine ''the, was''))" by code_simp
  have b: "\<not> includesStr (cleanLine ''the, was'') '':''" by code_simp
  have c: "extractList (cleanLine ''the, was'') = [''the'', ''was'']" by code_simp
  from list_section_lines [OF a b, of "\<lparr>extracted = emptyLesson, currentSection = S_hfw,
      dictationSubMode = M_none, ids = constantIds ''id''\<rparr>"] a b c
  show ?thesis by (simp add: emptyLesson_def)
qed

text \<open>
  Claim C8 as stated fails: after the header \<open>Quick Drill\<close>, the line \<open>party\<close> matches no
  section-header keyword and contains no colon, its list is the one item \<open>party\<close>, and
  nothing is appended to \<open>quickDrill\<close>, since the line contains \<open>part\<close>.
\<close>

theorem quick_drill_skips_part:
  "\<not> matchesSectionKeyword (toLowerCase (cleanLine ''party''))
   \<and> \<not> includesStr (cleanLine ''party'') '':''
   \<and> extractList (cleanLine ''party'') = [''party'']
   \<and> map_sum id (quickDrill \<circ> fst)
       (parseLessonText (constantIds ''id'') (''Quick Drill'' @ [nl] @ ''party'') None None)
     = Inr []"
  by code_simp


subsection \<open>Identifiers are the only trace of the random source\<close>

text \<open>A record without its identifiers: every word card gets the empty identifier.\<close>

definition eraseCard :: "WordCard \<Rightarrow> WordCard" where
  "eraseCard c = c\<lparr>cardId := []\<rparr>"

definition eraseIds :: "Lesson \<Rightarrow> Lesson" where
  "eraseIds l = l\<lparr>wordCards := map eraseCard (wordCards l)\<rparr>"

lemma eraseIds_eq_iff:
  "eraseIds a = eraseIds b \<longleftrightarrow>
     step a = step b \<and> substep a = substep b \<and> quickDrill a = quickDrill b
     \<and> hfwList a = hfwList b \<and> map eraseCard (wordCards a) = map eraseCard (wordCards b)
     \<and> sentences a = sentences b \<and> passage a = passage b \<and> dictation a = dictation b"
  by (cases a, cases b) (auto simp: eraseIds_def)

lemma makeCards_erase:
  "map eraseCard (fst (makeCards src ws))
     = map (\<lambda>w. \<lparr>cardId = [], cardText = w, cardType = Regular\<rparr>) ws"
proof (induction ws arbitrary: src)
  case Nil
  then show ?case by simp
next
  case (Cons w ws)
  obtain cards rest where m: "makeCards (\<lambda>n. src (Suc n)) ws = (cards, rest)"
    by (cases "makeCards (\<lambda>n. src (Suc n)) ws")
  from Cons.IH [of "\<lambda>n. src (Suc n)"] m
  have "map eraseCard cards = map (\<lambda>w. \<lparr>cardId = [], cardText = w, cardType = Regular\<rparr>) ws"
    by simp
  moreover have "eraseCard \<lparr>cardId = src 0, cardText = w, cardType = Regular\<rparr>
      = \<lparr>cardId = [], cardText = w, cardType = Regular\<rparr>"
    by (simp add: eraseCard_def)
  ultimately show ?case using m by (simp add: generateId_def)
qed

lemma makeCards_erase_eq:
  "makeCards a ws = (ca, a') \<Longrightarrow> makeCards b ws = (cb, b') \<Longrightarrow>
     map eraseCard ca = map eraseCard cb"
  using makeCards_erase [of a ws] makeCards_erase [of b ws] by simp

text \<open>Two states of the loop that differ in identifiers only.\<close>

definition sameUpToIds :: "ParserState \<Rightarrow> ParserState \<Rightarrow> bool" where
  "sameUpToIds s t =
     (eraseIds (extracted s) = eraseIds (extracted t)
      \<and> currentSection s = currentSection t \<and> dictationSubMode s = dictationSubMode t)"

lemma sectionContent_sameUpToIds:
  assumes "sameUpToIds s t"
  shows "sameUpToIds (sectionContent s rawLine line) (sectionContent t rawLine line)"
proof (cases "currentSection s")
  case S_wordCards
  obtain cs s' where cs: "makeCards (ids s) (extractList line) = (cs, s')"
    by (cases "makeCards (ids s) (extractList line)")
  obtain ct t' where ct: "makeCards (ids t) (extractList line) = (ct, t')"
    by (cases "makeCards (ids t) (extractList line)")
  from makeCards_erase_eq [OF cs ct] assms S_wordCards cs ct show ?thesis
    by (simp add: sameUpToIds_def sectionContent_def Let_def eraseIds_eq_iff)
qed (use assms in \<open>simp_all add: sameUpToIds_def sectionContent_def Let_def eraseIds_eq_iff\<close>)

lemma processLine_sameUpToIds:
  assumes "sameUpToIds s t"
  shows "sameUpToIds (processLine s rawLine) (processLine t rawLine)"
proof -
  let ?line = "cleanLine rawLine"
  obtain cs s' where cs: "makeCards (ids s) (extractList (the (headerContent ?line))) = (cs, s')"
    by (cases "makeCards (ids s) (extractList (the (headerContent ?line)))")
  obtain ct t' where ct: "makeCards (ids t) (extractList (the (headerContent ?line))) = (ct, t')"
    by (cases "makeCards (ids t) (extractList (the (headerContent ?line)))")
  note cards = makeCards_erase_eq [OF cs ct]
  note content = sectionContent_sameUpToIds [OF assms, of rawLine ?line]
  show ?thesis
  proof (cases "headerContent ?line")
    case None
    with assms content show ?thesis
      by (simp add: processLine_def Let_def sameUpToIds_def eraseIds_eq_iff)
  next
    case (Some content')
    with assms content cs ct cards show ?thesis
      by (simp add: processLine_def Let_def sameUpToIds_def eraseIds_eq_iff)
  qed
qed

lemma foldl_processLine_sameUpToIds:
  "sameUpToIds s t \<Longrightarrow> sameUpToIds (foldl processLine s ls) (foldl processLine t ls)"
  by (induction ls arbitrary: s t) (simp_all add: processLine_sameUpToIds)

lemma standardTextParser_erase:
  "eraseIds (fst (standardTextParser a text)) = eraseIds (fst (standardTextParser b text))"
proof -
  have "sameUpToIds
      \<lparr>extracted = e, currentSection = S_none, dictationSubMode = M_none, ids = a\<rparr>
      \<lparr>extracted = e, currentSection = S_none, dictationSubMode = M_none, ids = b\<rparr>" for e
    by (simp add: sameUpToIds_def)
  from foldl_processLine_sameUpToIds [OF this] show ?thesis
    by (simp add: standardTextParser_def Let_def sameUpToIds_def)
qed

lemma standardTextParser_dictation:
  "dictation (fst (standardTextParser a text)) = dictation (fst (standardTextParser b text))"
  using standardTextParser_erase [of a "text" b] by (simp add: eraseIds_eq_iff)

lemma csvFields_erase:
  "eraseIds (fst (csvFields a indices dataRow)) = eraseIds (fst (csvFields b indices dataRow))"
proof -
  let ?vocab = "getList indices dataRow [''new vocab words'']
      @ getList indices dataRow [''vocab from sentences'']
      @ getList indices dataRow [''vocab from connected text'']"
  obtain ca a' where ca: "makeCards a ?vocab = (ca, a')" by (cases "makeCards a ?vocab")
  obtain cb b' where cb: "makeCards b ?vocab = (cb, b')" by (cases "makeCards b ?vocab")
  from makeCards_erase_eq [OF ca cb] ca cb show ?thesis
    by (simp add: csvFields_def Let_def eraseIds_eq_iff emptyLesson_def del: getCol.simps)
qed

lemma withTargets_erase:
  "eraseIds e1 = eraseIds e2 \<Longrightarrow>
     eraseIds (withTargets e1 a b) = eraseIds (withTargets e2 a b)"
  by (simp add: withTargets_def Let_def eraseIds_eq_iff)

text \<open>
  Claim C9, as amended. The word cards get their identifiers from \<open>generateId\<close>, that
  is from \<open>Math.random\<close>, so two calls with the same arguments may differ in them. This
  is the only difference: for the same text and targets, with any two sources of
  identifiers, either both calls throw the same error or they return records that are
  equal once the identifiers of the word cards are erased (the texts, kinds and order of
  the cards and every other field are equal).
\<close>

theorem deterministic_up_to_card_ids:
  "map_sum id (eraseIds \<circ> fst) (parseLessonText src1 text targetStep targetSubstep)
   = map_sum id (eraseIds \<circ> fst) (parseLessonText src2 text targetStep targetSubstep)"
proof (cases "csvDataRow text targetStep targetSubstep")
  case (Inl e)
  then show ?thesis
    by (subst (1 2) parseLessonText.simps) simp
next
  case (Inr row)
  show ?thesis
  proof (cases row)
    case None
    with Inr have "csvDataRow text targetStep targetSubstep = Inr None" by simp
    then show ?thesis
      by (simp add: no_row_standard standardTextParser_erase)
  next
    case (Some ir)
    obtain indices dataRow where ir: "ir = (indices, dataRow)" by (cases ir)
    with Inr Some have row: "csvDataRow text targetStep targetSubstep = Inr (Some (indices, dataRow))"
      by simp
    obtain e1 a1 where f1: "csvFields src1 indices dataRow = (e1, a1)"
      by (cases "csvFields src1 indices dataRow")
    obtain e2 a2 where f2: "csvFields src2 indices dataRow = (e2, a2)"
      by (cases "csvFields src2 indices dataRow")
    from csvFields_erase [of src1 indices dataRow src2] f1 f2
    have e: "eraseIds e1 = eraseIds e2" by simp
    let ?d = "getCol indices dataRow [''dictation'']"
    show ?thesis
    proof (cases "?d = []")
      case True
      then show ?thesis
        unfolding csv_branch_result [OF row] f1 f2
        by (simp add: withTargets_erase [OF e])
    next
      case False
      obtain d1 b1 where p1: "standardTextParser a1 ?d = (d1, b1)"
        by (cases "standardTextParser a1 ?d")
      obtain d2 b2 where p2: "standardTextParser a2 ?d = (d2, b2)"
        by (cases "standardTextParser a2 ?d")
      from standardTextParser_dictation [of a1 ?d a2] p1 p2
      have "dictation d1 = dictation d2" by simp
      with e have "eraseIds (e1\<lparr>dictation := dictation d1\<rparr>) = eraseIds (e2\<lparr>dictation := dictation d2\<rparr>)"
        by (simp add: eraseIds_eq_iff)
      from withTargets_erase [OF this] False show ?thesis
        unfolding csv_branch_result [OF row] f1 f2 Let_def
        by (simp add: p1 p2 del: getCol.simps)
    qed
  qed
qed

text \<open>
  Claim C9 as stated fails: with two sources of identifiers, the calls on the text
  \<open>Word Cards: cat\<close> return different records, one with the card identifier \<open>a\<close> and one
  with \<open>b\<close>.
\<close>

theorem card_ids_differ:
  "map_sum id (wordCards \<circ> fst) (parseLessonText (constantIds ''a'') ''Word Cards: cat'' None None)
     = Inr [\<lparr>cardId = ''a'', cardText = ''cat'', cardType = Regular\<rparr>]
   \<and> map_sum id (wordCards \<circ> fst) (parseLessonText (constantIds ''b'') ''Word Cards: cat'' None None)
     = Inr [\<lparr>cardId = ''b'', cardText = ''cat'', cardType = Regular\<rparr>]
   \<and> map_sum id fst (parseLessonText (constantIds ''a'') ''Word Cards: cat'' None None)
     \<noteq> map_sum id fst (parseLessonText (constantIds ''b'') ''Word Cards: cat'' None None)"
  by code_simp

end
